theory Spec2Isabelle
  imports Main "HOL-Library.Word"
begin

section \<open>Data model of pci-char.c\<close>

text \<open>
  Machine types: \<open>u32\<close> is \<open>unsigned int\<close>/\<open>u32\<close>; \<open>u64\<close> carries every 64-bit
  quantity of the driver (\<open>size_t\<close>, \<open>resource_size_t\<close>, pointers, and the bit patterns
  of the signed \<open>loff_t\<close> and \<open>ssize_t\<close>, which are read with \<open>sint\<close>).
  Arithmetic on words wraps as the machine's does.
\<close>

type_synonym u32 = "32 word"
type_synonym u64 = "64 word"

definition ENXIO :: int where "ENXIO = 6"
definition EIO :: int where "EIO = 5"
definition ENOMEM :: int where "ENOMEM = 12"
definition EFAULT :: int where "EFAULT = 14"
definition EINVAL :: int where "EINVAL = 22"

definition SEEK_SET :: int where "SEEK_SET = 0"
definition SEEK_CUR :: int where "SEEK_CUR = 1"

text \<open>The remainder of C: the quotient is truncated towards zero.\<close>

definition c_rem :: "int \<Rightarrow> int \<Rightarrow> int" where
  "c_rem a b = sgn a * (\<bar>a\<bar> mod \<bar>b\<bar>)"

text \<open>\<open>struct bar_t\<close>: the length of a BAR and the address of its mapping.\<close>

record bar_t =
  len :: u64
  addr :: u64

text \<open>
  \<open>struct pci_char\<close>. The embedded \<open>struct cdev\<close> is a kernel object: its registration
  is tracked in the kernel state of the attach model below.
\<close>

record pci_char =
  bar :: "bar_t list"
  major :: u32

text \<open>
  The part of \<open>struct file\<close> the driver uses: the position, the \<open>private_data\<close>
  pointer (\<open>None\<close> is NULL; the device record is immutable while attached, so the
  pointer is modelled by the record it points to) and the minor number of the inode.
\<close>

record file_t =
  f_pos :: u64
  private_data :: "pci_char option"
  i_minor :: u32

text \<open>
  The world outside the driver that read and write touch: the mapped register space
  as a store of 32-bit words, the caller's address space at word granularity (an address
  outside the domain faults), and the log of bus accesses in program order.
\<close>

datatype access = Load u64 | Store u64 u32

record world =
  mmio :: "u64 \<Rightarrow> u32"
  umem :: "u64 \<rightharpoonup> u32"
  bus :: "access list"

definition readl :: "world \<Rightarrow> u64 \<Rightarrow> u32 \<times> world" where
  "readl w a = (mmio w a, w\<lparr>bus := bus w @ [Load a]\<rparr>)"

definition writel :: "u32 \<Rightarrow> u64 \<Rightarrow> world \<Rightarrow> world" where
  "writel v a w = w\<lparr>mmio := (mmio w)(a := v), bus := bus w @ [Store a v]\<rparr>"

text \<open>Both return the number of bytes that could not be copied, as the kernel's do.\<close>

definition copy_to_user :: "world \<Rightarrow> u64 \<Rightarrow> u32 \<Rightarrow> u64 \<times> world" where
  "copy_to_user w p v =
     (if p \<in> dom (umem w) then (0, w\<lparr>umem := (umem w)(p \<mapsto> v)\<rparr>) else (4, w))"

definition copy_from_user :: "world \<Rightarrow> u64 \<Rightarrow> u64 \<times> u32 option" where
  "copy_from_user w p = (case umem w p of None \<Rightarrow> (4, None) | Some v \<Rightarrow> (0, Some v))"

section \<open>The file operations\<close>

text \<open>
  \<open>pchar->bar[num]\<close> for the session of a file: \<open>None\<close> where the C is undefined
  (NULL \<open>private_data\<close>, index outside the array).
\<close>

definition session_bar :: "file_t \<Rightarrow> bar_t option" where
  "session_bar fl =
     (case private_data fl of
        None \<Rightarrow> None
      | Some pchar \<Rightarrow>
          if unat (i_minor fl) < length (bar pchar)
          then Some (bar pchar ! unat (i_minor fl)) else None)"

definition dev_open :: "pci_char \<Rightarrow> file_t \<Rightarrow> int \<times> file_t" where
  "dev_open pchar fl =
     (let num = i_minor fl in
      if num > 5 then (- ENXIO, fl)
      else if len (bar pchar ! unat num) = 0 then (- EIO, fl)
      else (0, fl\<lparr>private_data := Some pchar\<rparr>))"

text \<open>
  \<open>dev_seek\<close> returns the \<open>loff_t\<close> and the file. The comparison with
  \<open>len - 4\<close> is unsigned, as C's conversions make it; \<open>len - 4\<close> wraps.
\<close>

definition dev_seek :: "file_t \<Rightarrow> u64 \<Rightarrow> int \<Rightarrow> (u64 \<times> file_t) option" where
  "dev_seek fl offset whence =
     (let new_pos = (if whence = SEEK_SET then offset
                     else if whence = SEEK_CUR then f_pos fl + offset
                     else word_of_int (- EINVAL)) in
      if c_rem (sint new_pos) 4 \<noteq> 0 then Some (word_of_int (- EINVAL), fl)
      else case session_bar fl of
             None \<Rightarrow> None
           | Some b \<Rightarrow>
               if sint new_pos < 0 \<or> new_pos > len b - 4
               then Some (word_of_int (- EINVAL), fl)
               else Some (new_pos, fl\<lparr>f_pos := new_pos\<rparr>))"

text \<open>
  The transfer loops. The loop variables are \<open>count\<close>, \<open>tmp\<close> and \<open>bytes\<close>; the result
  carries \<open>bytes\<close>, \<open>err\<close> and the world. \<open>offset\<close> is the \<open>u32\<close> local, which the loop
  never changes. Entered with a count that is no multiple of 4 the loop would not end,
  so it is a partial function.
\<close>

partial_function (option) read_loop ::
  "bar_t option \<Rightarrow> u32 \<Rightarrow> u64 \<Rightarrow> u64 \<Rightarrow> u64 \<Rightarrow> world \<Rightarrow> (u64 \<times> int \<times> world) option" where
  "read_loop ob offset count tmp bytes w =
     (if count = 0 then Some (bytes, 0, w)
      else case ob of
             None \<Rightarrow> None
           | Some b \<Rightarrow>
               (case readl w (addr b + ucast offset) of (data, w1) \<Rightarrow>
                  (case copy_to_user w1 tmp data of (r, w2) \<Rightarrow>
                     if r \<noteq> 0 then Some (bytes, - EFAULT, w2)
                     else read_loop ob offset (count - 4) (tmp + 4) (bytes + 4) w2)))"

partial_function (option) write_loop ::
  "bar_t option \<Rightarrow> u32 \<Rightarrow> u64 \<Rightarrow> u64 \<Rightarrow> u64 \<Rightarrow> world \<Rightarrow> (u64 \<times> int \<times> world) option" where
  "write_loop ob offset count tmp bytes w =
     (if count = 0 then Some (bytes, 0, w)
      else case copy_from_user w tmp of
             (r, None) \<Rightarrow> Some (bytes, - EFAULT, w)
           | (r, Some data) \<Rightarrow>
               (case ob of
                  None \<Rightarrow> None
                | Some b \<Rightarrow>
                    write_loop ob offset (count - 4) (tmp + 4) (bytes + 4)
                      (writel data (addr b + ucast offset) w)))"

text \<open>
  \<open>dev_read\<close> and \<open>dev_write\<close> take the file, the user pointer, the count and the
  value of \<open>*ppos\<close>; they return the \<open>ssize_t\<close>, the value of \<open>*ppos\<close> on return, the
  file and the world.
\<close>

definition dev_read ::
  "file_t \<Rightarrow> u64 \<Rightarrow> u64 \<Rightarrow> u64 \<Rightarrow> world \<Rightarrow> (u64 \<times> u64 \<times> file_t \<times> world) option" where
  "dev_read fl buf count ppos w =
     (let offset = (ucast ppos :: u32) in
      if unat count mod 4 \<noteq> 0 then Some (word_of_int (- EINVAL), ppos, fl, w)
      else case read_loop (session_bar fl) offset count buf 0 w of
             None \<Rightarrow> None
           | Some (bytes, err, w') \<Rightarrow>
               Some (if bytes \<noteq> 0 then bytes else word_of_int err, ppos, fl, w'))"

definition dev_write ::
  "file_t \<Rightarrow> u64 \<Rightarrow> u64 \<Rightarrow> u64 \<Rightarrow> world \<Rightarrow> (u64 \<times> u64 \<times> file_t \<times> world) option" where
  "dev_write fl buf count ppos w =
     (let offset = (ucast ppos :: u32) in
      if unat count mod 4 \<noteq> 0 then Some (word_of_int (- EINVAL), ppos, fl, w)
      else case write_loop (session_bar fl) offset count buf 0 w of
             None \<Rightarrow> None
           | Some (bytes, err, w') \<Rightarrow>
               Some (if bytes \<noteq> 0 then bytes else word_of_int err, ppos, fl, w'))"

section \<open>Reference notions and concrete configurations\<close>

text \<open>
  The position a seek asks for, as the specification words it: the offset itself from
  the start, the current position plus the offset otherwise. It is a mathematical
  integer; \<open>dev_seek\<close> computes it in 64-bit arithmetic.
\<close>

definition spec_seek_target :: "file_t \<Rightarrow> u64 \<Rightarrow> int \<Rightarrow> int" where
  "spec_seek_target fl offset whence =
     (if whence = SEEK_SET then sint offset else sint (f_pos fl) + sint offset)"

text \<open>A device with a 16-byte BAR 0 and a 256-byte BAR 3, and a session on BAR 0.\<close>

definition example_pchar :: pci_char where
  "example_pchar =
     \<lparr>bar = [\<lparr>len = 16, addr = 0x1000\<rparr>, \<lparr>len = 0, addr = 0\<rparr>, \<lparr>len = 0, addr = 0\<rparr>,
             \<lparr>len = 256, addr = 0x2000\<rparr>, \<lparr>len = 0, addr = 0\<rparr>, \<lparr>len = 0, addr = 0\<rparr>],
      major = 250\<rparr>"

definition example_file :: file_t where
  "example_file = \<lparr>f_pos = 0, private_data = Some example_pchar, i_minor = 0\<rparr>"

text \<open>
  Closed forms of the transfer loops, for their analysis. \<open>words_ok D p n\<close> counts the
  leading word slots \<open>p\<close>, \<open>p + 4\<close>, ... (at most \<open>n\<close>) that lie in \<open>D\<close>: the words
  moved before the first fault. \<open>slots p k\<close> are the addresses of the first \<open>k\<close> slots,
  \<open>user_words\<close> their contents. \<open>read_outcome\<close> and \<open>write_outcome\<close> give \<open>bytes\<close>,
  \<open>err\<close> and the world at the end of a loop of \<open>n\<close> rounds.
\<close>

fun words_ok :: "u64 set \<Rightarrow> u64 \<Rightarrow> nat \<Rightarrow> nat" where
  "words_ok D p 0 = 0"
| "words_ok D p (Suc n) = (if p \<in> D then Suc (words_ok D (p + 4) n) else 0)"

definition slots :: "u64 \<Rightarrow> nat \<Rightarrow> u64 set" where
  "slots p k = (\<lambda>i. p + 4 * of_nat i) ` {..<k}"

fun user_words :: "(u64 \<rightharpoonup> u32) \<Rightarrow> u64 \<Rightarrow> nat \<Rightarrow> u32 list" where
  "user_words um p 0 = []"
| "user_words um p (Suc k) = the (um p) # user_words um (p + 4) k"

definition read_outcome :: "bar_t \<Rightarrow> u32 \<Rightarrow> nat \<Rightarrow> u64 \<Rightarrow> u64 \<Rightarrow> world \<Rightarrow> u64 \<times> int \<times> world" where
  "read_outcome b off n tmp bytes w =
     (let a = addr b + ucast off; k = words_ok (dom (umem w)) tmp n in
      (bytes + 4 * of_nat k,
       if k < n then - EFAULT else 0,
       w\<lparr>umem := (\<lambda>p. if p \<in> slots tmp k then Some (mmio w a) else umem w p),
         bus := bus w @ replicate (min (Suc k) n) (Load a)\<rparr>))"

definition write_outcome :: "bar_t \<Rightarrow> u32 \<Rightarrow> nat \<Rightarrow> u64 \<Rightarrow> u64 \<Rightarrow> world \<Rightarrow> u64 \<times> int \<times> world" where
  "write_outcome b off n tmp bytes w =
     (let a = addr b + ucast off; k = words_ok (dom (umem w)) tmp n;
          vs = user_words (umem w) tmp k in
      (bytes + 4 * of_nat k,
       if k < n then - EFAULT else 0,
       w\<lparr>mmio := fold (\<lambda>v m. m(a := v)) vs (mmio w),
         bus := bus w @ map (Store a) vs\<rparr>))"

text \<open>
  The value \<open>dev_read\<close> and \<open>dev_write\<close> return after \<open>k\<close> of \<open>n\<close> rounds:
  \<open>bytes ? bytes : err\<close>.
\<close>

definition xfer_ret :: "nat \<Rightarrow> nat \<Rightarrow> u64" where
  "xfer_ret k n = (if (4 * of_nat k :: u64) \<noteq> 0 then 4 * of_nat k
                   else word_of_int (if k < n then - EFAULT else 0))"

text \<open>
  Two caller address spaces over a register space in which every address holds its own
  low 32 bits: one with four accessible words at \<open>0x7000\<close>, one with two. The
  observers project the outcome of a read or write call.
\<close>

definition example_world :: world where
  "example_world =
     \<lparr>mmio = ucast,
      umem = [0x7000 \<mapsto> 0x11, 0x7004 \<mapsto> 0x22, 0x7008 \<mapsto> 0x33, 0x700C \<mapsto> 0x44],
      bus = []\<rparr>"

definition short_world :: world where
  "short_world = \<lparr>mmio = ucast, umem = [0x7000 \<mapsto> 0x11, 0x7004 \<mapsto> 0x22], bus = []\<rparr>"

definition ret_of :: "(u64 \<times> u64 \<times> file_t \<times> world) option \<Rightarrow> u64 option" where
  "ret_of r = map_option fst r"



section \<open>The kernel interface of attach and detach\<close>

text \<open>
  \<open>pci_probe\<close> and \<open>pci_remove\<close> acquire and release resources of the kernel. The
  state \<open>kstate\<close> records what the device holds: the allocation of the device record,
  the enabled device, the requested BAR ranges, the live mappings (the cookies
  \<open>ioremap\<close> returned and \<open>iounmap\<close> has not yet taken back), the character-device
  numbers, the registered \<open>cdev\<close>, the device nodes by minor number, and the driver-data
  pointer (modelled by the record it points to). \<open>misuse\<close> logs calls that the kernel
  interface forbids: reading or freeing the record after \<open>kfree\<close>, unmapping an address
  that is not a live mapping, deleting a \<open>cdev\<close> that is not registered.
\<close>

datatype misuse = UseAfterFree | DoubleFree | BadUnmap u64 | BadCdevDel

record kstate =
  pchar_live :: bool
  enabled :: bool
  requested :: bool
  iomaps :: "u64 list"
  chrdev :: "u32 option"
  cdev_added :: bool
  nodes :: "nat list"
  drvdata :: "pci_char option"
  misuse :: "misuse list"

text \<open>
  What the kernel answers during one attach: whether \<open>kmalloc\<close> succeeds and the
  (uninitialised) contents of the memory it returns, the return values of
  \<open>pci_enable_device_mem\<close>, \<open>pci_select_bars\<close>, \<open>pci_request_selected_regions\<close>,
  \<open>pci_resource_len\<close>, \<open>ioremap\<close>, \<open>alloc_chrdev_region\<close>, \<open>cdev_add\<close> and
  \<open>device_create\<close>. Pointers are returned as the machine words they are.
\<close>

record platform =
  kmalloc_ok :: bool
  kmalloc_mem :: pci_char
  enable_ret :: int
  sel_bars :: u32
  request_ret :: int
  res_len :: "nat \<Rightarrow> u64"
  ioremap_ret :: "nat \<Rightarrow> u64"
  alloc_ret :: int
  alloc_major :: u32
  cdev_add_ret :: int
  device_create_ret :: "nat \<Rightarrow> u64"

text \<open>\<open>IS_ERR\<close> and \<open>PTR_ERR\<close> of \<open>linux/err.h\<close>: the top 4095 addresses encode an errno.\<close>

definition IS_ERR :: "u64 \<Rightarrow> bool" where
  "IS_ERR p \<longleftrightarrow> p \<ge> - 4095"

definition PTR_ERR :: "u64 \<Rightarrow> int" where
  "PTR_ERR p = sint p"

text \<open>
  \<open>ioremap\<close> hands out a mapping unless it returns NULL, which is how the kernel's
  \<open>ioremap\<close> reports failure (and answers a request of size 0); an error pointer is no
  mapping either. \<open>device_create\<close> reports failure by an error pointer.
\<close>

definition ioremap :: "platform \<Rightarrow> nat \<Rightarrow> kstate \<Rightarrow> u64 \<times> kstate" where
  "ioremap e i k =
     (let p = ioremap_ret e i in
      (p, if p \<noteq> 0 \<and> \<not> IS_ERR p then k\<lparr>iomaps := p # iomaps k\<rparr> else k))"

definition iounmap :: "u64 \<Rightarrow> kstate \<Rightarrow> kstate" where
  "iounmap p k =
     (if p \<in> set (iomaps k) then k\<lparr>iomaps := remove1 p (iomaps k)\<rparr>
      else k\<lparr>misuse := misuse k @ [BadUnmap p]\<rparr>)"

definition device_create :: "platform \<Rightarrow> nat \<Rightarrow> kstate \<Rightarrow> u64 \<times> kstate" where
  "device_create e i k =
     (let d = device_create_ret e i in
      (d, if IS_ERR d then k else k\<lparr>nodes := i # nodes k\<rparr>))"

definition device_destroy :: "nat \<Rightarrow> kstate \<Rightarrow> kstate" where
  "device_destroy i k = k\<lparr>nodes := removeAll i (nodes k)\<rparr>"

definition cdev_del :: "kstate \<Rightarrow> kstate" where
  "cdev_del k =
     (if cdev_added k then k\<lparr>cdev_added := False\<rparr>
      else k\<lparr>misuse := misuse k @ [BadCdevDel]\<rparr>)"

definition unregister_chrdev_region :: "kstate \<Rightarrow> kstate" where
  "unregister_chrdev_region k = k\<lparr>chrdev := None\<rparr>"

definition pci_release_selected_regions :: "kstate \<Rightarrow> kstate" where
  "pci_release_selected_regions k = k\<lparr>requested := False\<rparr>"

definition pci_disable_device :: "kstate \<Rightarrow> kstate" where
  "pci_disable_device k = k\<lparr>enabled := False\<rparr>"

definition kfree :: "kstate \<Rightarrow> kstate" where
  "kfree k =
     (if pchar_live k then k\<lparr>pchar_live := False\<rparr>
      else k\<lparr>misuse := misuse k @ [DoubleFree]\<rparr>)"

section \<open>Attach and detach\<close>

text \<open>
  The two loops of \<open>pci_probe\<close> that can \<open>break\<close> return \<open>err\<close>, the index \<open>i\<close> at
  which they stopped and the state. The loops \<open>for (i--; i >= 0; i--)\<close> that follow a
  \<open>break\<close> at \<open>i\<close> visit \<open>i - 1\<close>, ..., \<open>0\<close>: \<open>unmap_below i\<close> and \<open>destroy_below i\<close>.
  The labels of the exit path fall through, so each is the next one after its own call.
\<close>

function map_bars ::
  "platform \<Rightarrow> nat \<Rightarrow> pci_char \<Rightarrow> kstate \<Rightarrow> int \<times> nat \<times> pci_char \<times> kstate" where
  "map_bars e i pchar k =
     (if i < 6 then
        if bit (sel_bars e) i then
          case ioremap e i k of (p, k') \<Rightarrow>
            if IS_ERR p
            then (PTR_ERR p, i, pchar\<lparr>bar := (bar pchar)[i := (bar pchar ! i)\<lparr>addr := p\<rparr>]\<rparr>, k')
            else map_bars e (i + 1)
                   (pchar\<lparr>bar := (bar pchar)[i := \<lparr>len = res_len e i, addr = p\<rparr>]\<rparr>) k'
        else map_bars e (i + 1) (pchar\<lparr>bar := (bar pchar)[i := \<lparr>len = 0, addr = 0\<rparr>]\<rparr>) k
      else (0, i, pchar, k))"
  by pat_completeness auto
termination
  by (relation "measure (\<lambda>(e, i, pchar, k). 6 - i)") auto

fun unmap_below :: "nat \<Rightarrow> pci_char \<Rightarrow> kstate \<Rightarrow> kstate" where
  "unmap_below 0 pchar k = k"
| "unmap_below (Suc i) pchar k =
     unmap_below i pchar
       (if len (bar pchar ! i) \<noteq> 0 then iounmap (addr (bar pchar ! i)) k else k)"

function create_nodes :: "platform \<Rightarrow> nat \<Rightarrow> pci_char \<Rightarrow> kstate \<Rightarrow> int \<times> nat \<times> kstate" where
  "create_nodes e i pchar k =
     (if i < 6 then
        if len (bar pchar ! i) \<noteq> 0 then
          case device_create e i k of (d, k') \<Rightarrow>
            if IS_ERR d then (PTR_ERR d, i, k') else create_nodes e (i + 1) pchar k'
        else create_nodes e (i + 1) pchar k
      else (0, i, k))"
  by pat_completeness auto
termination
  by (relation "measure (\<lambda>(e, i, pchar, k). 6 - i)") auto

declare map_bars.simps [simp del] create_nodes.simps [simp del]

fun destroy_below :: "nat \<Rightarrow> pci_char \<Rightarrow> kstate \<Rightarrow> kstate" where
  "destroy_below 0 pchar k = k"
| "destroy_below (Suc i) pchar k =
     destroy_below i pchar (if len (bar pchar ! i) \<noteq> 0 then device_destroy i k else k)"

definition unmap_all :: "pci_char \<Rightarrow> kstate \<Rightarrow> kstate" where
  "unmap_all pchar k =
     fold (\<lambda>i k. if len (bar pchar ! i) \<noteq> 0 then iounmap (addr (bar pchar ! i)) k else k)
       [0..<6] k"

definition destroy_all :: "pci_char \<Rightarrow> kstate \<Rightarrow> kstate" where
  "destroy_all pchar k =
     fold (\<lambda>i k. if len (bar pchar ! i) \<noteq> 0 then device_destroy i k else k) [0..<6] k"

definition failure_pci_enable :: "kstate \<Rightarrow> kstate" where
  "failure_pci_enable k = kfree k"

definition failure_pci_regions :: "kstate \<Rightarrow> kstate" where
  "failure_pci_regions k = failure_pci_enable (pci_disable_device k)"

definition failure_ioremap :: "kstate \<Rightarrow> kstate" where
  "failure_ioremap k = failure_pci_regions (pci_release_selected_regions k)"

definition failure_alloc_chrdev_region :: "pci_char \<Rightarrow> kstate \<Rightarrow> kstate" where
  "failure_alloc_chrdev_region pchar k = failure_ioremap (unmap_all pchar k)"

definition failure_cdev_add :: "pci_char \<Rightarrow> kstate \<Rightarrow> kstate" where
  "failure_cdev_add pchar k = failure_alloc_chrdev_region pchar (unregister_chrdev_region k)"

definition failure_device_create :: "pci_char \<Rightarrow> kstate \<Rightarrow> kstate" where
  "failure_device_create pchar k = failure_cdev_add pchar (cdev_del k)"

definition pci_probe :: "platform \<Rightarrow> kstate \<Rightarrow> int \<times> kstate" where
  "pci_probe e k =
     (if \<not> kmalloc_ok e then (- ENOMEM, k)
      else let k1 = k\<lparr>pchar_live := True\<rparr> in
        if enable_ret e \<noteq> 0 then (enable_ret e, failure_pci_enable k1)
        else let k2 = k1\<lparr>enabled := True\<rparr> in
          if request_ret e \<noteq> 0 then (request_ret e, failure_pci_regions k2)
          else let k3 = k2\<lparr>requested := True\<rparr> in
            case map_bars e 0 (kmalloc_mem e) k3 of (err, i, pchar1, k4) \<Rightarrow>
              if err \<noteq> 0 then (err, failure_ioremap (unmap_below i pchar1 k4))
              else if alloc_ret e \<noteq> 0
                then (alloc_ret e, failure_alloc_chrdev_region pchar1 k4)
              else let pchar2 = pchar1\<lparr>major := alloc_major e\<rparr>;
                       k5 = k4\<lparr>chrdev := Some (alloc_major e)\<rparr> in
                if cdev_add_ret e \<noteq> 0
                then (cdev_add_ret e, failure_cdev_add pchar2 k5)
                else let k6 = k5\<lparr>cdev_added := True\<rparr> in
                  case create_nodes e 0 pchar2 k6 of (err, i, k7) \<Rightarrow>
                    if err \<noteq> 0
                    then (err, failure_device_create pchar2 (destroy_below i pchar2 k7))
                    else (0, k7\<lparr>drvdata := Some pchar2\<rparr>))"

text \<open>
  \<open>pci_remove\<close> reads the record through the driver-data pointer: \<open>None\<close> is the NULL
  dereference. Nothing in the driver clears the pointer or the record, so a record that
  was freed is read as it was left, which is logged.
\<close>

definition pci_remove :: "kstate \<Rightarrow> kstate option" where
  "pci_remove k =
     (case drvdata k of
        None \<Rightarrow> None
      | Some pchar \<Rightarrow>
          let k0 = (if pchar_live k then k else k\<lparr>misuse := misuse k @ [UseAfterFree]\<rparr>);
              k1 = destroy_all pchar k0;
              k2 = cdev_del k1;
              k3 = unregister_chrdev_region k2;
              k4 = unmap_all pchar k3;
              k5 = pci_release_selected_regions k4;
              k6 = pci_disable_device k5
          in Some (kfree k6))"

text \<open>
  The region invariant of the specification on a state: the recorded length of region
  \<open>i\<close> is non-zero, its recorded base is a live mapping, a node is published for it.
\<close>

definition has_length :: "kstate \<Rightarrow> nat \<Rightarrow> bool" where
  "has_length k i \<longleftrightarrow>
     (case drvdata k of None \<Rightarrow> False | Some pchar \<Rightarrow> len (bar pchar ! i) \<noteq> 0)"

definition base_mapped :: "kstate \<Rightarrow> nat \<Rightarrow> bool" where
  "base_mapped k i \<longleftrightarrow>
     (case drvdata k of None \<Rightarrow> False | Some pchar \<Rightarrow> addr (bar pchar ! i) \<in> set (iomaps k))"

definition published :: "kstate \<Rightarrow> nat \<Rightarrow> bool" where
  "published k i \<longleftrightarrow> i \<in> set (nodes k)"

text \<open>
  The part of \<open>pci_remove\<close> before \<open>kfree\<close>.
\<close>

definition teardown :: "pci_char \<Rightarrow> kstate \<Rightarrow> kstate" where
  "teardown pchar k =
     pci_disable_device (pci_release_selected_regions (unmap_all pchar
       (unregister_chrdev_region (cdev_del (destroy_all pchar k)))))"

text \<open>
  An unbound device, the memory \<open>kmalloc\<close> returns, and four attach scenarios on the
  device of the specification (BAR 0: 4096 bytes of memory, BAR 1 absent, BAR 2 memory of
  0 bytes, BAR 3: 256 bytes of memory): every call succeeds; \<open>ioremap\<close> fails for BAR 3
  the way the kernel reports it, with NULL; \<open>ioremap\<close> answers with an error pointer;
  \<open>device_create\<close> fails for BAR 3.
\<close>

definition unbound :: kstate where
  "unbound = \<lparr>pchar_live = False, enabled = False, requested = False, iomaps = [],
              chrdev = None, cdev_added = False, nodes = [], drvdata = None, misuse = []\<rparr>"

definition raw_pchar :: pci_char where
  "raw_pchar =
     \<lparr>bar = [\<lparr>len = 0xDEADBEEF, addr = 0xDEADBEEF\<rparr>, \<lparr>len = 0xDEADBEEF, addr = 0xDEADBEEF\<rparr>,
             \<lparr>len = 0xDEADBEEF, addr = 0xDEADBEEF\<rparr>, \<lparr>len = 0xDEADBEEF, addr = 0xDEADBEEF\<rparr>,
             \<lparr>len = 0xDEADBEEF, addr = 0xDEADBEEF\<rparr>, \<lparr>len = 0xDEADBEEF, addr = 0xDEADBEEF\<rparr>],
      major = 0xDEAD\<rparr>"

definition scenario :: platform where
  "scenario =
     \<lparr>kmalloc_ok = True, kmalloc_mem = raw_pchar, enable_ret = 0, sel_bars = 0b1101,
      request_ret = 0,
      res_len = (\<lambda>i. if i = 0 then 4096 else if i = 3 then 256 else 0),
      ioremap_ret = (\<lambda>i. if i = 0 then 0xFFFFC90000000000
                            else if i = 3 then 0xFFFFC90000010000 else 0),
      alloc_ret = 0, alloc_major = 250, cdev_add_ret = 0,
      device_create_ret = (\<lambda>i. 0xFFFF888000000000 + of_nat i)\<rparr>"

definition null_scenario :: platform where
  "null_scenario =
     scenario\<lparr>ioremap_ret := (\<lambda>i. if i = 0 then 0xFFFFC90000000000 else 0)\<rparr>"

definition attached_example :: kstate where
  "attached_example =
     \<lparr>pchar_live = True, enabled = True, requested = True,
      iomaps = [0xFFFFC90000010000, 0xFFFFC90000000000],
      chrdev = Some 250, cdev_added = True, nodes = [3, 0],
      drvdata = Some \<lparr>bar = [\<lparr>len = 4096, addr = 0xFFFFC90000000000\<rparr>,
                             \<lparr>len = 0, addr = 0\<rparr>, \<lparr>len = 0, addr = 0\<rparr>,
                             \<lparr>len = 256, addr = 0xFFFFC90000010000\<rparr>,
                             \<lparr>len = 0, addr = 0\<rparr>, \<lparr>len = 0, addr = 0\<rparr>],
                      major = 250\<rparr>,
      misuse = []\<rparr>"

definition errptr_scenario :: platform where
  "errptr_scenario =
     scenario\<lparr>ioremap_ret := (\<lambda>i. if i = 0 then 0xFFFFC90000000000 else - 12)\<rparr>"

definition nodefail_scenario :: platform where
  "nodefail_scenario =
     scenario\<lparr>device_create_ret := (\<lambda>i. if i = 0 then 0xFFFF888000000000 else - 12)\<rparr>"

section \<open>Word arithmetic\<close>

lemma c_rem_4_iff: "c_rem a 4 \<noteq> 0 \<longleftrightarrow> \<not> 4 dvd a"
proof -
  have "\<bar>a\<bar> mod 4 = 0 \<longleftrightarrow> 4 dvd a" by presburger
  moreover have "sgn a * (\<bar>a\<bar> mod 4) = 0 \<longleftrightarrow> a = 0 \<or> \<bar>a\<bar> mod 4 = 0"
    by (simp add: sgn_if)
  moreover have "a = 0 \<Longrightarrow> 4 dvd a" by simp
  ultimately show ?thesis unfolding c_rem_def by auto
qed

lemma sint_u64_cases:
  "sint (x::u64) = (if uint x < 2 ^ 63 then uint x else uint x - 2 ^ 64)"
proof -
  have s: "sint x = (uint x + 2 ^ 63) mod 2 ^ 64 - 2 ^ 63"
    by (simp add: sint_uint signed_take_bit_eq_take_bit_shift take_bit_eq_mod)
  have r: "uint x < 2 ^ 64" "0 \<le> uint x" using uint_lt2p [of x] by simp_all
  show ?thesis
  proof (cases "uint x < 2 ^ 63")
    case True
    then have "(uint x + 2 ^ 63) mod 2 ^ 64 = uint x + 2 ^ 63"
      using r by (intro mod_pos_pos_trivial) simp_all
    with True s show ?thesis by simp
  next
    case False
    have "(uint x + 2 ^ 63) mod 2 ^ 64 = (uint x + 2 ^ 63 - 2 ^ 64) mod 2 ^ 64"
      using mod_add_self2 [of "uint x + 2 ^ 63 - 2 ^ 64" "2 ^ 64"] by (simp add: add.commute)
    also have "\<dots> = uint x + 2 ^ 63 - 2 ^ 64"
      using r False by (intro mod_pos_pos_trivial) simp_all
    finally show ?thesis using False s by simp
  qed
qed

lemma sint_wrap_dvd4: "4 dvd sint (word_of_int T :: u64) \<longleftrightarrow> 4 dvd T"
proof -
  have u: "uint (word_of_int T :: u64) = T mod 2 ^ 64" by (simp add: uint_word_of_int)
  have "(4::int) dvd 2 ^ 64" by simp
  then have a: "4 dvd T mod 2 ^ 64 \<longleftrightarrow> 4 dvd T" by (rule dvd_mod_iff)
  have b: "4 dvd (T mod 2 ^ 64 - 2 ^ 64) \<longleftrightarrow> 4 dvd T mod 2 ^ 64"
    by (rule dvd_diff_left_iff) simp
  show ?thesis unfolding sint_u64_cases u using a b by auto
qed

lemma step4:
  assumes "unat (count::u64) = 4 * Suc n"
  shows "count \<noteq> 0" and "unat (count - 4) = 4 * n"
proof -
  have ge: "4 \<le> unat count" using assms by arith
  show "count \<noteq> 0"
  proof
    assume "count = 0"
    then have "unat count = 0" by (simp only: unat_0)
    with ge show False by arith
  qed
  have u4: "unat (4::u64) = 4" by simp
  have le: "(4::u64) \<le> count" unfolding word_le_nat_alt u4 by (rule ge)
  have "unat (count - 4) = unat count - unat (4::u64)" using le by (rule unat_sub)
  then show "unat (count - 4) = 4 * n" unfolding u4 using assms by arith
qed

lemma uint_wrap:
  assumes "- (2 ^ 63) \<le> T" and "T < 2 ^ 64"
  shows "uint (word_of_int T :: u64) = (if T < 0 then T + 2 ^ 64 else T)"
proof (cases "T < 0")
  case True
  have "T mod 2 ^ 64 = (T + 2 ^ 64) mod 2 ^ 64" by simp
  also have "\<dots> = T + 2 ^ 64" using assms True by (intro mod_pos_pos_trivial) simp_all
  finally show ?thesis using True by (simp add: uint_word_of_int)
next
  case False
  then have "T mod 2 ^ 64 = T" using assms by (intro mod_pos_pos_trivial) simp_all
  then show ?thesis using False by (simp add: uint_word_of_int)
qed

lemma sint_wrap:
  assumes "- (2 ^ 63) \<le> T" and "T < 2 ^ 64"
  shows "sint (word_of_int T :: u64) = (if T < 2 ^ 63 then T else T - 2 ^ 64)"
  unfolding sint_u64_cases uint_wrap [OF assms] using assms by simp

lemma uint_minus_le:
  assumes "uint k \<le> uint (l::u64)"
  shows "uint (l - k) = uint l - uint k"
proof -
  have "l - k = word_of_int (uint l - uint k)" by simp
  then have "uint (l - k) = (uint l - uint k) mod 2 ^ 64" by (simp only: uint_word_of_int) simp
  also have "\<dots> = uint l - uint k"
  proof (rule mod_pos_pos_trivial)
    show "0 \<le> uint l - uint k" using assms by simp
    have lt: "uint l < 2 ^ 64" using uint_lt2p [of l] by simp
    have "0 \<le> uint k" by simp
    with lt show "uint l - uint k < 2 ^ 64" by linarith
  qed
  finally show ?thesis .
qed

lemma sint_small: "uint (x::u64) < 2 ^ 63 \<Longrightarrow> sint x = uint x"
  by (simp add: sint_u64_cases)




section \<open>Seeking\<close>

lemma new_pos_eq:
  assumes "whence = SEEK_SET \<or> whence = SEEK_CUR"
  shows "(if whence = SEEK_SET then offset else if whence = SEEK_CUR then f_pos fl + offset
          else word_of_int (- EINVAL)) = (word_of_int (spec_seek_target fl offset whence) :: u64)"
  using assms by (auto simp: spec_seek_target_def SEEK_SET_def SEEK_CUR_def)

lemma target_range:
  assumes "0 \<le> sint (f_pos fl)"
  shows "- (2 ^ 63) \<le> spec_seek_target fl offset whence"
    and "spec_seek_target fl offset whence < 2 ^ 64"
proof -
  have o: "- (2 ^ 63) \<le> sint offset" "sint offset < 2 ^ 63"
    using sint_ge [of offset] sint_lt [of offset] by simp_all
  have f: "sint (f_pos fl) < 2 ^ 63" using sint_lt [of "f_pos fl"] by simp
  show "- (2 ^ 63) \<le> spec_seek_target fl offset whence"
    unfolding spec_seek_target_def using o assms by (cases "whence = SEEK_SET") simp_all
  show "spec_seek_target fl offset whence < 2 ^ 64"
    unfolding spec_seek_target_def using o f by (cases "whence = SEEK_SET") simp_all
qed

lemma uint_len_minus4:
  assumes "4 \<le> uint (l::u64)"
  shows "uint (l - 4) = uint l - 4"
proof -
  have "l - 4 = word_of_int (uint l - 4)" by simp
  then have "uint (l - 4) = (uint l - 4) mod 2 ^ 64" by (simp only: uint_word_of_int) simp
  also have "\<dots> = uint l - 4"
    using assms uint_lt2p [of l] by (intro mod_pos_pos_trivial) simp_all
  finally show ?thesis .
qed

lemma dev_seek_unfold:
  assumes "session_bar fl = Some b" and "whence = SEEK_SET \<or> whence = SEEK_CUR"
  shows "dev_seek fl offset whence =
     (let np = (word_of_int (spec_seek_target fl offset whence) :: u64) in
      if \<not> 4 dvd spec_seek_target fl offset whence then Some (word_of_int (- EINVAL), fl)
      else if sint np < 0 \<or> np > len b - 4 then Some (word_of_int (- EINVAL), fl)
      else Some (np, fl\<lparr>f_pos := np\<rparr>))"
  unfolding dev_seek_def new_pos_eq [OF assms(2)] Let_def c_rem_4_iff sint_wrap_dvd4
  using assms(1) by simp

lemma dev_seek_cases:
  assumes sb: "session_bar fl = Some b" and wh: "whence = SEEK_SET \<or> whence = SEEK_CUR"
    and l4: "4 \<le> uint (len b)" and fp: "0 \<le> sint (f_pos fl)"
  shows "dev_seek fl offset whence =
     (let T = spec_seek_target fl offset whence in
      if 4 dvd T \<and> 0 \<le> T \<and> T < 2 ^ 63 \<and> T \<le> uint (len b) - 4
      then Some (word_of_int T, fl\<lparr>f_pos := word_of_int T\<rparr>)
      else Some (word_of_int (- EINVAL), fl))"
proof -
  let ?T = "spec_seek_target fl offset whence"
  let ?np = "word_of_int ?T :: u64"
  note r = target_range [OF fp, of offset whence]
  have s: "sint ?np < 0 \<longleftrightarrow> ?T < 0 \<or> 2 ^ 63 \<le> ?T"
    unfolding sint_wrap [OF r] using r by auto
  have u: "0 \<le> ?T \<Longrightarrow> (?np > len b - 4 \<longleftrightarrow> ?T > uint (len b) - 4)"
    unfolding word_less_alt uint_len_minus4 [OF l4] uint_wrap [OF r] by simp
  show ?thesis
    unfolding dev_seek_unfold [OF sb wh] Let_def using s u by auto
qed

lemma example_session_bar: "session_bar example_file = Some \<lparr>len = 16, addr = 0x1000\<rparr>"
  by (simp add: session_bar_def example_file_def example_pchar_def)

text \<open>
  Claim C2. On a region of length \<open>L\<close> with \<open>4 \<le> L\<close> (and \<open>L\<close> representable as a
  file offset), a seek from the start or from the current position succeeds exactly when
  the position asked for is a multiple of 4 in \<open>[0, L - 4]\<close>, and then stores and returns
  it; otherwise it returns \<open>-EINVAL\<close> and leaves the file as it was. When \<open>L\<close> is a
  multiple of 4, seeking to \<open>L - 4\<close> from the start succeeds, seeking to \<open>L\<close> or to
  \<open>L - 3\<close> fails with \<open>-EINVAL\<close>.
\<close>

theorem dev_seek_succeeds_iff_in_bounds:
  assumes sb: "session_bar fl = Some b"
    and l4: "4 \<le> uint (len b)" and l63: "uint (len b) < 2 ^ 63"
    and fp: "0 \<le> sint (f_pos fl)"
    and wh: "whence = SEEK_SET \<or> whence = SEEK_CUR"
  shows "dev_seek fl offset whence =
           (let T = spec_seek_target fl offset whence in
            if 4 dvd T \<and> 0 \<le> T \<and> T \<le> uint (len b) - 4
            then Some (word_of_int T, fl\<lparr>f_pos := word_of_int T\<rparr>)
            else Some (word_of_int (- EINVAL), fl))
         \<and> (4 dvd uint (len b) \<longrightarrow>
              dev_seek fl (len b - 4) SEEK_SET = Some (len b - 4, fl\<lparr>f_pos := len b - 4\<rparr>)
            \<and> dev_seek fl (len b) SEEK_SET = Some (word_of_int (- EINVAL), fl)
            \<and> dev_seek fl (len b - 3) SEEK_SET = Some (word_of_int (- EINVAL), fl))"
proof -
  have gen: "dev_seek fl off wh' =
           (let T = spec_seek_target fl off wh' in
            if 4 dvd T \<and> 0 \<le> T \<and> T \<le> uint (len b) - 4
            then Some (word_of_int T, fl\<lparr>f_pos := word_of_int T\<rparr>)
            else Some (word_of_int (- EINVAL), fl))"
    if "wh' = SEEK_SET \<or> wh' = SEEK_CUR" for off wh'
    unfolding dev_seek_cases [OF sb that l4 fp] Let_def using l63 by auto
  have set: "spec_seek_target fl off SEEK_SET = sint off" for off
    by (simp add: spec_seek_target_def)
  have u4: "uint (len b - 4) = uint (len b) - 4"
    using uint_minus_le [of 4 "len b"] l4 by simp
  have u3: "uint (len b - 3) = uint (len b) - 3"
    using uint_minus_le [of 3 "len b"] l4 by simp
  have s4: "sint (len b - 4) = uint (len b) - 4" using sint_small [of "len b - 4"] u4 l63 by simp
  have s3: "sint (len b - 3) = uint (len b) - 3" using sint_small [of "len b - 3"] u3 l63 by simp
  have s0: "sint (len b) = uint (len b)" using sint_small l63 by simp
  have w4: "word_of_int (uint (len b) - 4) = len b - 4" by simp
  have inst: "dev_seek fl (len b - 4) SEEK_SET = Some (len b - 4, fl\<lparr>f_pos := len b - 4\<rparr>)
            \<and> dev_seek fl (len b) SEEK_SET = Some (word_of_int (- EINVAL), fl)
            \<and> dev_seek fl (len b - 3) SEEK_SET = Some (word_of_int (- EINVAL), fl)"
    if d: "4 dvd uint (len b)"
  proof -
    have d4: "4 dvd uint (len b) - 4" using d by presburger
    have d3: "\<not> 4 dvd uint (len b) - 3" using d by presburger
    show ?thesis
      unfolding gen [of SEEK_SET, simplified] set s4 s3 s0 Let_def w4
      using d4 d3 l4 by simp
  qed
  show ?thesis using gen [OF wh] inst by blast
qed

theorem dev_seek_succeeds_iff_in_bounds_witness:
  "dev_seek example_file 12 SEEK_SET = Some (12, example_file\<lparr>f_pos := 12\<rparr>)
   \<and> dev_seek example_file 16 SEEK_SET = Some (word_of_int (- EINVAL), example_file)
   \<and> dev_seek example_file 13 SEEK_SET = Some (word_of_int (- EINVAL), example_file)"
  using dev_seek_succeeds_iff_in_bounds
    [of example_file "\<lparr>len = 16, addr = 0x1000\<rparr>" SEEK_SET 0, OF example_session_bar]
  by (simp add: example_file_def)

text \<open>
  Claim C5. A seek from the start or from the current position whose target is not a
  multiple of 4 returns \<open>-EINVAL\<close> and leaves the file, and so the position, unchanged:
  the alignment test comes before any look at the region. The same holds, on a session
  over a region of at least 4 bytes, when the target is negative or greater than the
  length minus 4.
\<close>

theorem dev_seek_rejects_bad_target:
  assumes wh: "whence = SEEK_SET \<or> whence = SEEK_CUR"
    and bad: "\<not> 4 dvd spec_seek_target fl offset whence
              \<or> (\<exists>b. session_bar fl = Some b \<and> 4 \<le> uint (len b) \<and> 0 \<le> sint (f_pos fl)
                    \<and> (spec_seek_target fl offset whence < 0
                         \<or> spec_seek_target fl offset whence > uint (len b) - 4))"
  shows "dev_seek fl offset whence = Some (word_of_int (- EINVAL), fl)"
  using bad
proof
  assume "\<not> 4 dvd spec_seek_target fl offset whence"
  then show ?thesis
    unfolding dev_seek_def new_pos_eq [OF wh] Let_def c_rem_4_iff sint_wrap_dvd4 by simp
next
  assume "\<exists>b. session_bar fl = Some b \<and> 4 \<le> uint (len b) \<and> 0 \<le> sint (f_pos fl)
                    \<and> (spec_seek_target fl offset whence < 0
                         \<or> spec_seek_target fl offset whence > uint (len b) - 4)"
  then obtain b where sb: "session_bar fl = Some b" and l4: "4 \<le> uint (len b)"
    and fp: "0 \<le> sint (f_pos fl)"
    and out: "spec_seek_target fl offset whence < 0
              \<or> spec_seek_target fl offset whence > uint (len b) - 4"
    by blast
  show ?thesis
    unfolding dev_seek_cases [OF sb wh l4 fp] Let_def using out by auto
qed

theorem dev_seek_rejects_bad_target_witness:
  "dev_seek (example_file\<lparr>f_pos := 8\<rparr>) 2 SEEK_CUR
     = Some (word_of_int (- EINVAL), example_file\<lparr>f_pos := 8\<rparr>)
   \<and> dev_seek (example_file\<lparr>f_pos := 8\<rparr>) (- 12) SEEK_CUR
     = Some (word_of_int (- EINVAL), example_file\<lparr>f_pos := 8\<rparr>)
   \<and> dev_seek (example_file\<lparr>f_pos := 8\<rparr>) 8 SEEK_CUR
     = Some (word_of_int (- EINVAL), example_file\<lparr>f_pos := 8\<rparr>)"
proof -
  have sb: "session_bar (example_file\<lparr>f_pos := 8\<rparr>) = Some \<lparr>len = 16, addr = 0x1000\<rparr>"
    by (simp add: session_bar_def example_file_def example_pchar_def)
  have a: "dev_seek (example_file\<lparr>f_pos := 8\<rparr>) 2 SEEK_CUR
     = Some (word_of_int (- EINVAL), example_file\<lparr>f_pos := 8\<rparr>)"
    by (rule dev_seek_rejects_bad_target)
       (simp_all add: spec_seek_target_def SEEK_SET_def SEEK_CUR_def)
  have b: "dev_seek (example_file\<lparr>f_pos := 8\<rparr>) (- 12) SEEK_CUR
     = Some (word_of_int (- EINVAL), example_file\<lparr>f_pos := 8\<rparr>)"
    by (rule dev_seek_rejects_bad_target)
       (simp_all add: sb spec_seek_target_def SEEK_SET_def SEEK_CUR_def)
  have c: "dev_seek (example_file\<lparr>f_pos := 8\<rparr>) 8 SEEK_CUR
     = Some (word_of_int (- EINVAL), example_file\<lparr>f_pos := 8\<rparr>)"
    by (rule dev_seek_rejects_bad_target)
       (simp_all add: sb spec_seek_target_def SEEK_SET_def SEEK_CUR_def)
  from a b c show ?thesis by simp
qed

section \<open>Opening\<close>

text \<open>
  Claim C7. \<open>dev_open\<close> returns \<open>-ENXIO\<close> for a minor number above 5, \<open>-EIO\<close> for a
  minor in range whose BAR has length 0, and 0 otherwise; it then records the device in
  the file and does not touch the position, which is the 0 of the freshly allocated
  \<open>struct file\<close> it is handed.
\<close>

theorem dev_open_outcomes:
  assumes "f_pos fl = 0"
  shows "(5 < unat (i_minor fl) \<longrightarrow> dev_open pchar fl = (- ENXIO, fl))
       \<and> (unat (i_minor fl) \<le> 5 \<and> len (bar pchar ! unat (i_minor fl)) = 0
            \<longrightarrow> dev_open pchar fl = (- EIO, fl))
       \<and> (unat (i_minor fl) \<le> 5 \<and> len (bar pchar ! unat (i_minor fl)) \<noteq> 0
            \<longrightarrow> fst (dev_open pchar fl) = 0
              \<and> f_pos (snd (dev_open pchar fl)) = 0
              \<and> private_data (snd (dev_open pchar fl)) = Some pchar
              \<and> i_minor (snd (dev_open pchar fl)) = i_minor fl)"
proof -
  have "i_minor fl > 5 \<longleftrightarrow> 5 < unat (i_minor fl)"
    by (simp add: word_less_nat_alt)
  then show ?thesis using assms by (auto simp: dev_open_def Let_def)
qed

theorem dev_open_outcomes_witness:
  "dev_open example_pchar \<lparr>f_pos = 0, private_data = None, i_minor = 6\<rparr>
     = (- ENXIO, \<lparr>f_pos = 0, private_data = None, i_minor = 6\<rparr>)
   \<and> dev_open example_pchar \<lparr>f_pos = 0, private_data = None, i_minor = 1\<rparr>
     = (- EIO, \<lparr>f_pos = 0, private_data = None, i_minor = 1\<rparr>)
   \<and> fst (dev_open example_pchar \<lparr>f_pos = 0, private_data = None, i_minor = 3\<rparr>) = 0
   \<and> f_pos (snd (dev_open example_pchar \<lparr>f_pos = 0, private_data = None, i_minor = 3\<rparr>)) = 0"
  using dev_open_outcomes [of "\<lparr>f_pos = 0, private_data = None, i_minor = 6\<rparr>" example_pchar]
    dev_open_outcomes [of "\<lparr>f_pos = 0, private_data = None, i_minor = 1\<rparr>" example_pchar]
    dev_open_outcomes [of "\<lparr>f_pos = 0, private_data = None, i_minor = 3\<rparr>" example_pchar]
  by (simp add: example_pchar_def)

section \<open>The transfer loops\<close>

lemma slots_0: "slots p 0 = {}"
  by (simp add: slots_def)

lemma slots_Suc: "slots p (Suc k) = insert p (slots (p + 4) k)"
proof -
  have "{..<Suc k} = insert 0 (Suc ` {..<k})" by (rule lessThan_Suc_eq_insert_0)
  then have "slots p (Suc k) = insert p ((\<lambda>i. p + 4 * of_nat (Suc i)) ` {..<k})"
    unfolding slots_def by (simp add: image_image)
  also have "(\<lambda>i. p + 4 * of_nat (Suc i)) = (\<lambda>i. p + 4 + 4 * of_nat i)"
    by (rule ext) (simp add: algebra_simps)
  finally show ?thesis unfolding slots_def .
qed

lemma words_ok_le: "words_ok D p n \<le> n"
  by (induction n arbitrary: p) simp_all

lemma words_ok_all: "slots p n \<subseteq> D \<Longrightarrow> words_ok D p n = n"
  by (induction n arbitrary: p) (simp_all add: slots_Suc)

lemma words_ok_first_fault:
  "slots p j \<subseteq> D \<Longrightarrow> j < n \<Longrightarrow> p + 4 * of_nat j \<notin> D \<Longrightarrow> words_ok D p n = j"
proof (induction n arbitrary: p j)
  case 0
  then show ?case by simp
next
  case (Suc n)
  show ?case
  proof (cases j)
    case 0
    with Suc.prems show ?thesis by simp
  next
    case (Suc j')
    have "p + 4 + 4 * of_nat j' = p + 4 * of_nat (Suc j')" by (simp add: algebra_simps)
    with Suc.prems Suc have "words_ok D (p + 4) n = j'"
      by (intro Suc.IH) (simp_all add: slots_Suc add.assoc)
    with Suc.prems Suc show ?thesis by (simp add: slots_Suc)
  qed
qed

lemma words_ok_slots: "slots p (words_ok D p n) \<subseteq> D"
  by (induction n arbitrary: p) (simp_all add: slots_0 slots_Suc)

lemma words_ok_stops: "words_ok D p n < n \<Longrightarrow> p + 4 * of_nat (words_ok D p n) \<notin> D"
proof (induction n arbitrary: p)
  case 0
  then show ?case by simp
next
  case (Suc n)
  show ?case
  proof (cases "p \<in> D")
    case True
    with Suc.prems have "words_ok D (p + 4) n < n" by simp
    then have "p + 4 + 4 * of_nat (words_ok D (p + 4) n) \<notin> D" by (rule Suc.IH)
    with True show ?thesis by (simp add: add.assoc)
  next
    case False
    then show ?thesis by simp
  qed
qed

lemma read_loop_done: "read_loop ob off 0 tmp bytes w = Some (bytes, 0, w)"
  by (subst read_loop.simps) simp

lemma read_loop_fault:
  "count \<noteq> 0 \<Longrightarrow> tmp \<notin> dom (umem w) \<Longrightarrow>
   read_loop (Some b) off count tmp bytes w
     = Some (bytes, - EFAULT, w\<lparr>bus := bus w @ [Load (addr b + ucast off)]\<rparr>)"
  by (subst read_loop.simps) (simp add: readl_def copy_to_user_def)

lemma read_loop_next:
  "count \<noteq> 0 \<Longrightarrow> tmp \<in> dom (umem w) \<Longrightarrow>
   read_loop (Some b) off count tmp bytes w
     = read_loop (Some b) off (count - 4) (tmp + 4) (bytes + 4)
         (w\<lparr>bus := bus w @ [Load (addr b + ucast off)],
            umem := (umem w)(tmp \<mapsto> mmio w (addr b + ucast off))\<rparr>)"
  by (subst read_loop.simps) (simp add: readl_def copy_to_user_def)

lemma read_loop_outcome:
  "unat count = 4 * n \<Longrightarrow>
   read_loop (Some b) off count tmp bytes w = Some (read_outcome b off n tmp bytes w)"
proof (induction n arbitrary: count tmp bytes w)
  case 0
  then have "count = 0" by (simp add: unat_eq_zero)
  then show ?case
    by (simp add: read_loop_done read_outcome_def slots_0)
next
  case (Suc n)
  note st = step4 [OF Suc.prems]
  show ?case
  proof (cases "tmp \<in> dom (umem w)")
    case False
    then show ?thesis
      unfolding read_loop_fault [OF st(1) False] read_outcome_def Let_def
      by (simp add: slots_0)
  next
    case True
    let ?a = "addr b + ucast off"
    let ?w2 = "w\<lparr>bus := bus w @ [Load ?a], umem := (umem w)(tmp \<mapsto> mmio w ?a)\<rparr>"
    have d: "dom (umem ?w2) = dom (umem w)" using True by (auto simp: insert_absorb)
    have "read_outcome b off n (tmp + 4) (bytes + 4) ?w2 = read_outcome b off (Suc n) tmp bytes w"
      unfolding read_outcome_def Let_def d using True
      by (auto simp: slots_Suc algebra_simps fun_eq_iff replicate_append_same)
    then show ?thesis
      unfolding read_loop_next [OF st(1) True] Suc.IH [OF st(2)] by simp
  qed
qed

lemma write_loop_done: "write_loop ob off 0 tmp bytes w = Some (bytes, 0, w)"
  by (subst write_loop.simps) simp

lemma write_loop_fault:
  "count \<noteq> 0 \<Longrightarrow> umem w tmp = None \<Longrightarrow>
   write_loop ob off count tmp bytes w = Some (bytes, - EFAULT, w)"
  by (subst write_loop.simps) (simp add: copy_from_user_def)

lemma write_loop_next:
  "count \<noteq> 0 \<Longrightarrow> umem w tmp = Some d \<Longrightarrow>
   write_loop (Some b) off count tmp bytes w
     = write_loop (Some b) off (count - 4) (tmp + 4) (bytes + 4)
         (writel d (addr b + ucast off) w)"
  by (subst write_loop.simps) (simp add: copy_from_user_def)

lemma write_loop_outcome:
  "unat count = 4 * n \<Longrightarrow>
   write_loop (Some b) off count tmp bytes w = Some (write_outcome b off n tmp bytes w)"
proof (induction n arbitrary: count tmp bytes w)
  case 0
  then have "count = 0" by (simp add: unat_eq_zero)
  then show ?case
    by (simp add: write_loop_done write_outcome_def)
next
  case (Suc n)
  note st = step4 [OF Suc.prems]
  show ?case
  proof (cases "umem w tmp")
    case None
    then have "tmp \<notin> dom (umem w)" by (simp add: domIff)
    then show ?thesis
      unfolding write_loop_fault [OF st(1) None] write_outcome_def Let_def by simp
  next
    case (Some d)
    let ?w2 = "writel d (addr b + ucast off) w"
    have u: "umem ?w2 = umem w" by (simp add: writel_def)
    have m: "tmp \<in> dom (umem w)" using Some by (simp add: domIff)
    have "write_outcome b off n (tmp + 4) (bytes + 4) ?w2
            = write_outcome b off (Suc n) tmp bytes w"
      unfolding write_outcome_def Let_def u using m Some
      by (simp add: writel_def algebra_simps)
    then show ?thesis
      unfolding write_loop_next [OF st(1) Some] Suc.IH [OF st(2)] by simp
  qed
qed

lemma dev_read_outcome:
  assumes "session_bar fl = Some b" and "unat count = 4 * n"
  shows "dev_read fl buf count ppos w =
           Some (case read_outcome b (ucast ppos) n buf 0 w of
                   (bytes, err, w') \<Rightarrow>
                     (if bytes \<noteq> 0 then bytes else word_of_int err, ppos, fl, w'))"
  unfolding dev_read_def Let_def assms(1) read_loop_outcome [OF assms(2)]
  using assms(2) by (simp split: prod.splits)

lemma dev_write_outcome:
  assumes "session_bar fl = Some b" and "unat count = 4 * n"
  shows "dev_write fl buf count ppos w =
           Some (case write_outcome b (ucast ppos) n buf 0 w of
                   (bytes, err, w') \<Rightarrow>
                     (if bytes \<noteq> 0 then bytes else word_of_int err, ppos, fl, w'))"
  unfolding dev_write_def Let_def assms(1) write_loop_outcome [OF assms(2)]
  using assms(2) by (simp split: prod.splits)

lemma unat_byte_count:
  assumes "unat (count::u64) = 4 * n" and "k \<le> n"
  shows "unat (4 * of_nat k :: u64) = 4 * k"
proof -
  have "unat count < 2 ^ 64" using unsigned_less [of count, where 'a = nat] by simp
  then have lt: "4 * k < 2 ^ 64" using assms by simp
  have "(4 * of_nat k :: u64) = of_nat (4 * k)" by simp
  then have "unat (4 * of_nat k :: u64) = (4 * k) mod 2 ^ 64"
    by (simp only: unat_of_nat) simp
  with lt show ?thesis by simp
qed

section \<open>Reading and writing\<close>

lemma efault_unat: "unat (word_of_int (- EFAULT) :: u64) = 18446744073709551602"
  by (simp add: EFAULT_def)

lemma xfer_ret_pos:
  assumes cnt: "unat (count::u64) = 4 * n" and kn: "k \<le> n" and k: "0 < k"
  shows "xfer_ret k n = of_nat (4 * k)" and "unat (xfer_ret k n) = 4 * k"
    and "unat count < 2 ^ 63 \<Longrightarrow> 0 < sint (xfer_ret k n)"
    and "xfer_ret k n \<noteq> word_of_int (- EFAULT)"
proof -
  note u = unat_byte_count [OF cnt kn]
  have nz: "(4 * of_nat k :: u64) \<noteq> 0"
  proof
    assume "(4 * of_nat k :: u64) = 0"
    then have "unat (4 * of_nat k :: u64) = 0" by (simp only: unat_0)
    with u k show False by simp
  qed
  then have r: "xfer_ret k n = 4 * of_nat k" by (simp add: xfer_ret_def)
  show "xfer_ret k n = of_nat (4 * k)" using r by simp
  show un: "unat (xfer_ret k n) = 4 * k" using r u by simp
  show "xfer_ret k n \<noteq> word_of_int (- EFAULT)"
  proof
    assume "xfer_ret k n = word_of_int (- EFAULT)"
    then have "unat (xfer_ret k n) = 18446744073709551602" by (simp only: efault_unat)
    with un show False by presburger
  qed
  show "0 < sint (xfer_ret k n)" if "unat count < 2 ^ 63"
  proof -
    have "uint (xfer_ret k n) = int (4 * k)" using un by (simp only: uint_nat)
    moreover have "4 * k < 2 ^ 63" using that cnt kn by simp
    ultimately have "uint (xfer_ret k n) < 2 ^ 63" "0 < uint (xfer_ret k n)" using k by simp_all
    then show ?thesis using sint_small [of "xfer_ret k n"] by simp
  qed
qed

lemma xfer_ret_zero: "xfer_ret 0 n = word_of_int (if 0 < n then - EFAULT else 0)"
  by (simp add: xfer_ret_def)

lemma xfer_ret_efault_iff:
  assumes cnt: "unat (count::u64) = 4 * n" and kn: "k \<le> n"
  shows "xfer_ret k n = word_of_int (- EFAULT) \<longleftrightarrow> k = 0 \<and> 0 < n"
proof (cases "k = 0")
  case True
  have "(0::u64) \<noteq> word_of_int (- EFAULT)" by (simp add: EFAULT_def)
  then show ?thesis using True by (auto simp: xfer_ret_zero)
next
  case False
  then show ?thesis using xfer_ret_pos(4) [OF cnt kn] by simp
qed

lemma words_ok_zero_iff: "words_ok D p n = 0 \<and> 0 < n \<longleftrightarrow> 0 < n \<and> p \<notin> D"
  by (cases n) simp_all

lemma xfer_ret_explicit:
  assumes cnt: "unat (count::u64) = 4 * n" and kn: "k \<le> n"
  shows "xfer_ret k n
           = (if k = 0 then word_of_int (if 0 < n then - EFAULT else 0) else of_nat (4 * k))"
proof (cases "k = 0")
  case True
  then show ?thesis by (simp add: xfer_ret_zero)
next
  case False
  then have "0 < k" by simp
  from xfer_ret_pos(1) [OF cnt kn this] False show ?thesis by simp
qed

text \<open>
  Claim C6. A read or a write whose count is \<open>4 * n\<close> returns after \<open>k \<le> n\<close> words, the
  words of the caller's buffer before its first inaccessible one. Those \<open>k\<close> words, and
  no others, have been transferred: a read has stored the loaded word in the first \<open>k\<close>
  slots of the buffer (after one load per round, the faulting round included), a write
  has stored the first \<open>k\<close> words of the buffer in the register. When the buffer faults at
  word \<open>j\<close>, \<open>k\<close> is \<open>j\<close>; for \<open>k > 0\<close> the call returns the \<open>4 * k\<close> bytes transferred, a
  positive value for any count the \<open>ssize_t\<close> can hold; it returns \<open>-EFAULT\<close> exactly when
  there is a first word and that word faults.
\<close>

theorem transfer_fault_returns_progress:
  assumes sb: "session_bar fl = Some b" and cnt: "unat count = 4 * n"
  shows "\<exists>k r. k \<le> n
         \<and> r = (if k = 0 then word_of_int (if 0 < n then - EFAULT else 0) else of_nat (4 * k))
         \<and> dev_read fl buf count ppos w
             = Some (r, ppos, fl,
                     w\<lparr>umem := (\<lambda>p. if p \<in> slots buf k
                                     then Some (mmio w (addr b + ucast (ucast ppos :: u32)))
                                     else umem w p),
                       bus := bus w @ replicate (min (Suc k) n)
                                        (Load (addr b + ucast (ucast ppos :: u32)))\<rparr>)
         \<and> dev_write fl buf count ppos w
             = Some (r, ppos, fl,
                     w\<lparr>mmio := fold (\<lambda>v m. m(addr b + ucast (ucast ppos :: u32) := v))
                                  (user_words (umem w) buf k) (mmio w),
                       bus := bus w @ map (Store (addr b + ucast (ucast ppos :: u32)))
                                        (user_words (umem w) buf k)\<rparr>)
         \<and> slots buf k \<subseteq> dom (umem w)
         \<and> (k < n \<longrightarrow> buf + 4 * of_nat k \<notin> dom (umem w))
         \<and> (\<forall>j<n. slots buf j \<subseteq> dom (umem w) \<and> buf + 4 * of_nat j \<notin> dom (umem w)
                \<longrightarrow> k = j)
         \<and> (0 < k \<longrightarrow> unat r = 4 * k \<and> (unat count < 2 ^ 63 \<longrightarrow> 0 < sint r))
         \<and> (r = word_of_int (- EFAULT) \<longleftrightarrow> 0 < n \<and> buf \<notin> dom (umem w))"
proof -
  let ?D = "dom (umem w)"
  let ?k = "words_ok ?D buf n"
  let ?r = "xfer_ret ?k n"
  have le: "?k \<le> n" by (rule words_ok_le)
  have x: "?r = (if ?k = 0 then word_of_int (if 0 < n then - EFAULT else 0)
                 else of_nat (4 * ?k))"
    by (rule xfer_ret_explicit [OF cnt le])
  have rd: "dev_read fl buf count ppos w
             = Some (?r, ppos, fl,
                     w\<lparr>umem := (\<lambda>p. if p \<in> slots buf ?k
                                     then Some (mmio w (addr b + ucast (ucast ppos :: u32)))
                                     else umem w p),
                       bus := bus w @ replicate (min (Suc ?k) n)
                                        (Load (addr b + ucast (ucast ppos :: u32)))\<rparr>)"
    unfolding dev_read_outcome [OF sb cnt] read_outcome_def Let_def
    by (simp add: xfer_ret_def)
  have wr: "dev_write fl buf count ppos w
             = Some (?r, ppos, fl,
                     w\<lparr>mmio := fold (\<lambda>v m. m(addr b + ucast (ucast ppos :: u32) := v))
                                  (user_words (umem w) buf ?k) (mmio w),
                       bus := bus w @ map (Store (addr b + ucast (ucast ppos :: u32)))
                                        (user_words (umem w) buf ?k)\<rparr>)"
    unfolding dev_write_outcome [OF sb cnt] write_outcome_def Let_def
    by (simp add: xfer_ret_def)
  have sl: "slots buf ?k \<subseteq> ?D" by (rule words_ok_slots)
  have st: "?k < n \<longrightarrow> buf + 4 * of_nat ?k \<notin> ?D" using words_ok_stops by blast
  have ff: "\<forall>j<n. slots buf j \<subseteq> ?D \<and> buf + 4 * of_nat j \<notin> ?D \<longrightarrow> ?k = j"
    using words_ok_first_fault by blast
  have pos: "0 < ?k \<longrightarrow> unat ?r = 4 * ?k \<and> (unat count < 2 ^ 63 \<longrightarrow> 0 < sint ?r)"
    using xfer_ret_pos(2,3) [OF cnt le] by blast
  have ef: "?r = word_of_int (- EFAULT) \<longleftrightarrow> 0 < n \<and> buf \<notin> ?D"
    unfolding xfer_ret_efault_iff [OF cnt le] by (rule words_ok_zero_iff)
  show ?thesis
    by (rule exI [of _ ?k], rule exI [of _ ?r]) (intro conjI le x rd wr sl st ff pos ef)
qed




lemma example_rounds: "unat (16::u64) = 4 * 4"
  by simp


lemma three_Suc: "(3::nat) = Suc (Suc (Suc 0))"
  by simp

lemma replicate_3: "replicate 3 x = [x, x, x]"
  unfolding three_Suc by simp

lemma user_words_2: "user_words um p 2 = [the (um p), the (um (p + 4))]"
proof -
  have "user_words um p 2 = user_words um p (Suc (Suc 0))" by (simp only: numeral_2_eq_2)
  then show ?thesis by simp
qed

lemma slots_2: "slots p 2 = {p, p + 4}"
proof -
  have "slots p 2 = slots p (Suc (Suc 0))" by (simp only: numeral_2_eq_2)
  then show ?thesis by (simp add: slots_Suc slots_0)
qed

theorem transfer_fault_returns_progress_witness:
  "dev_read example_file 0x7000 16 0 short_world
     = Some (8, 0, example_file,
             short_world\<lparr>umem := [0x7000 \<mapsto> 0x1000, 0x7004 \<mapsto> 0x1000],
                          bus := [Load 0x1000, Load 0x1000, Load 0x1000]\<rparr>)
   \<and> dev_write example_file 0x7000 16 0 short_world
     = Some (8, 0, example_file,
             short_world\<lparr>mmio := ucast(0x1000 := 0x22),
                          bus := [Store 0x1000 0x11, Store 0x1000 0x22]\<rparr>)
   \<and> ret_of (dev_read example_file 0x8000 16 0 short_world) = Some (word_of_int (- EFAULT))
   \<and> ret_of (dev_write example_file 0x8000 16 0 short_world) = Some (word_of_int (- EFAULT))"
proof -
  have pre: "slots 0x7000 2 \<subseteq> dom (umem short_world)
             \<and> 0x7000 + 4 * of_nat 2 \<notin> dom (umem short_world)"
    by (simp add: slots_2 short_world_def)
  have flt: "0 < (4::nat) \<and> 0x8000 \<notin> dom (umem short_world)"
    by (simp add: short_world_def)
  from transfer_fault_returns_progress
    [OF example_session_bar example_rounds, of "0x7000" 0 short_world]
  obtain k r where
    r: "r = (if k = 0 then word_of_int (if 0 < (4::nat) then - EFAULT else 0)
             else of_nat (4 * k))"
    and rd: "dev_read example_file 0x7000 16 0 short_world
             = Some (r, 0, example_file,
                     short_world\<lparr>umem := (\<lambda>p. if p \<in> slots 0x7000 k
                                     then Some (mmio short_world
                                       (addr \<lparr>len = 16, addr = 0x1000\<rparr> + ucast (ucast (0::u64) :: u32)))
                                     else umem short_world p),
                       bus := bus short_world @ replicate (min (Suc k) 4)
                                (Load (addr \<lparr>len = 16, addr = 0x1000\<rparr> + ucast (ucast (0::u64) :: u32)))\<rparr>)"
    and wr: "dev_write example_file 0x7000 16 0 short_world
             = Some (r, 0, example_file,
                     short_world\<lparr>mmio := fold (\<lambda>v m. m(addr \<lparr>len = 16, addr = 0x1000\<rparr>
                                                 + ucast (ucast (0::u64) :: u32) := v))
                                  (user_words (umem short_world) 0x7000 k) (mmio short_world),
                       bus := bus short_world @ map (Store (addr \<lparr>len = 16, addr = 0x1000\<rparr>
                                                 + ucast (ucast (0::u64) :: u32)))
                                        (user_words (umem short_world) 0x7000 k)\<rparr>)"
    and ff: "\<forall>j<4. slots 0x7000 j \<subseteq> dom (umem short_world)
               \<and> 0x7000 + 4 * of_nat j \<notin> dom (umem short_world) \<longrightarrow> k = j"
    by (elim exE conjE)
  from ff pre have k: "k = 2" by (elim allE [of _ 2]) simp
  have um: "(\<lambda>p. if p \<in> slots 0x7000 2
                 then Some (mmio short_world
                        (addr \<lparr>len = 16, addr = 0x1000\<rparr> + ucast (ucast (0::u64) :: u32)))
                 else umem short_world p)
              = [0x7000 \<mapsto> 0x1000, 0x7004 \<mapsto> 0x1000]"
    by (rule ext) (simp add: slots_2 short_world_def)
  have c1: "dev_read example_file 0x7000 16 0 short_world
     = Some (8, 0, example_file,
             short_world\<lparr>umem := [0x7000 \<mapsto> 0x1000, 0x7004 \<mapsto> 0x1000],
                          bus := [Load 0x1000, Load 0x1000, Load 0x1000]\<rparr>)"
    unfolding rd r k um by (simp add: short_world_def replicate_3)
  have c2: "dev_write example_file 0x7000 16 0 short_world
     = Some (8, 0, example_file,
             short_world\<lparr>mmio := ucast(0x1000 := 0x22),
                          bus := [Store 0x1000 0x11, Store 0x1000 0x22]\<rparr>)"
    unfolding wr r k by (simp add: short_world_def user_words_2)
  from transfer_fault_returns_progress
    [OF example_session_bar example_rounds, of "0x8000" 0 short_world]
  obtain k' r' w1 w2 where
    "dev_read example_file 0x8000 16 0 short_world = Some (r', 0, example_file, w1)"
    "dev_write example_file 0x8000 16 0 short_world = Some (r', 0, example_file, w2)"
    "r' = word_of_int (- EFAULT) \<longleftrightarrow> 0 < (4::nat) \<and> 0x8000 \<notin> dom (umem short_world)"
    by (elim exE conjE) blast
  with flt have c3:
    "ret_of (dev_read example_file 0x8000 16 0 short_world) = Some (word_of_int (- EFAULT))"
    "ret_of (dev_write example_file 0x8000 16 0 short_world) = Some (word_of_int (- EFAULT))"
    by (simp_all add: ret_of_def)
  from c1 c2 c3 show ?thesis by (intro conjI)
qed

lemma count_of_rounds:
  assumes "unat (count::u64) = 4 * n"
  shows "4 * of_nat n = count"
proof -
  have "(4 * of_nat n :: u64) = of_nat (4 * n)" by simp
  also have "\<dots> = of_nat (unat count)" by (simp only: assms)
  also have "\<dots> = count" by simp
  finally show ?thesis .
qed

lemma dev_read_no_fault:
  assumes sb: "session_bar fl = Some b" and cnt: "unat count = 4 * n"
    and ok: "slots buf n \<subseteq> dom (umem w)"
  shows "dev_read fl buf count ppos w =
           Some (count, ppos, fl,
                 w\<lparr>umem := (\<lambda>p. if p \<in> slots buf n
                                 then Some (mmio w (addr b + ucast (ucast ppos :: u32)))
                                 else umem w p),
                   bus := bus w @ replicate n (Load (addr b + ucast (ucast ppos :: u32)))\<rparr>)"
proof -
  have k: "words_ok (dom (umem w)) buf n = n" using ok by (rule words_ok_all)
  have m: "min (Suc n) n = n" by simp
  show ?thesis
    unfolding dev_read_outcome [OF sb cnt] read_outcome_def Let_def k m
      count_of_rounds [OF cnt]
    by simp
qed






lemma one_round: "unat (4::u64) = 4 * 1"
  by simp

lemma words_ok_1: "words_ok D p 1 = (if p \<in> D then 1 else 0)"
proof -
  have "words_ok D p 1 = words_ok D p (Suc 0)" by simp
  then show ?thesis by simp
qed

lemma slots_1: "slots p (Suc 0) = {p}"
  by (simp add: slots_Suc slots_0)

lemma user_words_1: "user_words um p 1 = [the (um p)]"
proof -
  have "user_words um p 1 = user_words um p (Suc 0)" by simp
  then show ?thesis by simp
qed

text \<open>
  Claim C8. On a session over an attached region, with the register space behaving as
  a store: writing the 4-byte word \<open>v\<close> at offset \<open>k\<close> and then reading 4 bytes at offset
  \<open>k\<close> both succeed, the read delivers \<open>v\<close> to the caller, and the two bus accesses are
  a store and a load at one and the same address. This holds for every \<open>k\<close>, so for
  every valid aligned one.
\<close>

theorem write_then_read_roundtrip:
  assumes sb: "session_bar fl = Some b"
    and src: "umem w src = Some v" and dst: "dst \<in> dom (umem w)"
  shows "\<exists>w1 w2. dev_write fl src 4 k w = Some (4, k, fl, w1)
               \<and> dev_read fl dst 4 k w1 = Some (4, k, fl, w2)
               \<and> umem w2 dst = Some v
               \<and> bus w2 = bus w @ [Store (addr b + ucast (ucast k :: u32)) v,
                                      Load (addr b + ucast (ucast k :: u32))]"
proof -
  let ?a = "addr b + ucast (ucast k :: u32)"
  let ?w1 = "w\<lparr>mmio := (mmio w)(?a := v), bus := bus w @ [Store ?a v]\<rparr>"
  let ?w2 = "?w1\<lparr>umem := (\<lambda>p. if p \<in> slots dst 1 then Some (mmio ?w1 ?a) else umem ?w1 p),
                  bus := bus ?w1 @ replicate 1 (Load ?a)\<rparr>"
  have s: "src \<in> dom (umem w)" using src by (simp add: domIff)
  have wr: "dev_write fl src 4 k w = Some (4, k, fl, ?w1)"
    unfolding dev_write_outcome [OF sb one_round] write_outcome_def Let_def
    using s src by (simp add: words_ok_1 user_words_1)
  have ok: "slots dst 1 \<subseteq> dom (umem ?w1)" using dst by (simp add: slots_1)
  have rd: "dev_read fl dst 4 k ?w1 = Some (4, k, fl, ?w2)"
    by (rule dev_read_no_fault [OF sb one_round ok])
  have "umem ?w2 dst = Some v" by (simp add: slots_1)
  moreover have "bus ?w2 = bus w @ [Store ?a v, Load ?a]" by simp
  ultimately show ?thesis using wr rd by blast
qed

theorem write_then_read_roundtrip_witness:
  "\<exists>w1 w2. dev_write example_file 0x7000 4 8 example_world = Some (4, 8, example_file, w1)
          \<and> dev_read example_file 0x7004 4 8 w1 = Some (4, 8, example_file, w2)
          \<and> umem w2 0x7004 = Some 0x11
          \<and> bus w2 = [Store 0x1008 0x11, Load 0x1008]"
proof -
  have src: "umem example_world 0x7000 = Some 0x11" by (simp add: example_world_def)
  have dst: "0x7004 \<in> dom (umem example_world)" by (simp add: example_world_def)
  have b: "bus example_world = []" by (simp add: example_world_def)
  have a: "addr \<lparr>len = 16, addr = 0x1000\<rparr> + ucast (ucast (8::u64) :: u32) = (0x1008::u64)"
    by simp
  show ?thesis
    using write_then_read_roundtrip [OF example_session_bar src dst, of 8]
    by (simp only: a b append_Nil)
qed








section \<open>The loops of attach\<close>

text \<open>
  One round of each loop, and two facts about a run: mapping the BARs leaves the nodes
  alone, and a node loop that ends without error has published a node for exactly the
  indices it visited whose recorded length is non-zero. So after an attach that returned
  0 on a device without nodes, a region has a non-zero length exactly when it has a node.
\<close>

lemma map_bars_stop: "\<not> i < 6 \<Longrightarrow> map_bars e i pchar k = (0, i, pchar, k)"
  by (subst map_bars.simps) simp

lemma map_bars_skip:
  "i < 6 \<Longrightarrow> \<not> bit (sel_bars e) i \<Longrightarrow>
   map_bars e i pchar k
     = map_bars e (i + 1) (pchar\<lparr>bar := (bar pchar)[i := \<lparr>len = 0, addr = 0\<rparr>]\<rparr>) k"
  by (subst map_bars.simps) simp

lemma map_bars_fail:
  "i < 6 \<Longrightarrow> bit (sel_bars e) i \<Longrightarrow> ioremap e i k = (p, k1) \<Longrightarrow> IS_ERR p \<Longrightarrow>
   map_bars e i pchar k
     = (PTR_ERR p, i, pchar\<lparr>bar := (bar pchar)[i := (bar pchar ! i)\<lparr>addr := p\<rparr>]\<rparr>, k1)"
  by (subst map_bars.simps) simp

lemma map_bars_next:
  "i < 6 \<Longrightarrow> bit (sel_bars e) i \<Longrightarrow> ioremap e i k = (p, k1) \<Longrightarrow> \<not> IS_ERR p \<Longrightarrow>
   map_bars e i pchar k
     = map_bars e (i + 1) (pchar\<lparr>bar := (bar pchar)[i := \<lparr>len = res_len e i, addr = p\<rparr>]\<rparr>) k1"
  by (subst map_bars.simps) simp

lemma create_nodes_stop: "\<not> i < 6 \<Longrightarrow> create_nodes e i pchar k = (0, i, k)"
  by (subst create_nodes.simps) simp

lemma create_nodes_skip:
  "i < 6 \<Longrightarrow> len (bar pchar ! i) = 0 \<Longrightarrow>
   create_nodes e i pchar k = create_nodes e (i + 1) pchar k"
  by (subst create_nodes.simps) simp

lemma create_nodes_fail:
  "i < 6 \<Longrightarrow> len (bar pchar ! i) \<noteq> 0 \<Longrightarrow> IS_ERR (device_create_ret e i) \<Longrightarrow>
   create_nodes e i pchar k = (PTR_ERR (device_create_ret e i), i, k)"
  by (subst create_nodes.simps) (simp add: device_create_def)

lemma create_nodes_next:
  "i < 6 \<Longrightarrow> len (bar pchar ! i) \<noteq> 0 \<Longrightarrow> \<not> IS_ERR (device_create_ret e i) \<Longrightarrow>
   create_nodes e i pchar k = create_nodes e (i + 1) pchar (k\<lparr>nodes := i # nodes k\<rparr>)"
  by (subst create_nodes.simps) (simp add: device_create_def)

lemma PTR_ERR_nonzero: "IS_ERR p \<Longrightarrow> PTR_ERR p \<noteq> 0"
  unfolding IS_ERR_def PTR_ERR_def
proof
  assume a: "- 4095 \<le> p" and z: "sint p = 0"
  have lt: "uint p < 2 ^ 64" using uint_lt2p [of p] by simp
  have "uint p = 0"
  proof (cases "uint p < 2 ^ 63")
    case True
    with z show ?thesis by (simp add: sint_u64_cases)
  next
    case False
    then have "sint p = uint p - 2 ^ 64" by (simp add: sint_u64_cases)
    with z lt show ?thesis by simp
  qed
  then have "uint p = uint (0::u64)" by simp
  then have "p = 0" by (simp only: word_uint_eq_iff)
  with a show False by simp
qed

lemma map_bars_nodes:
  "map_bars e i pchar k = (err, i', pchar', k') \<Longrightarrow> nodes k' = nodes k"
proof (induction e i pchar k rule: map_bars.induct)
  case (1 e i pchar k)
  show ?case
  proof (cases "i < 6")
    case False
    with "1.prems" show ?thesis by (simp add: map_bars_stop)
  next
    case lt: True
    show ?thesis
    proof (cases "bit (sel_bars e) i")
      case False
      with lt "1.prems" "1.IH"(2) show ?thesis by (simp add: map_bars_skip)
    next
      case True
      obtain p k1 where io: "ioremap e i k = (p, k1)" by (cases "ioremap e i k")
      then have n1: "nodes k1 = nodes k" by (auto simp: ioremap_def Let_def)
      show ?thesis
      proof (cases "IS_ERR p")
        case True
        with lt \<open>bit (sel_bars e) i\<close> io "1.prems" n1 show ?thesis
          by (simp add: map_bars_fail)
      next
        case False
        from "1.prems" have "map_bars e (i + 1)
            (pchar\<lparr>bar := (bar pchar)[i := \<lparr>len = res_len e i, addr = p\<rparr>]\<rparr>) k1
              = (err, i', pchar', k')"
          by (simp add: map_bars_next [OF lt True io False])
        from "1.IH"(1) [OF lt True io [symmetric] False this] n1 show ?thesis by simp
      qed
    qed
  qed
qed

lemma create_nodes_set:
  "create_nodes e i pchar k = (0, i', k') \<Longrightarrow>
   set (nodes k') = set (nodes k) \<union> {j. i \<le> j \<and> j < 6 \<and> len (bar pchar ! j) \<noteq> 0}
   \<and> drvdata k' = drvdata k"
proof (induction e i pchar k rule: create_nodes.induct)
  case (1 e i pchar k)
  show ?case
  proof (cases "i < 6")
    case False
    with "1.prems" show ?thesis by (auto simp: create_nodes_stop)
  next
    case lt: True
    show ?thesis
    proof (cases "len (bar pchar ! i) = 0")
      case True
      with lt "1.prems" have "create_nodes e (i + 1) pchar k = (0, i', k')"
        by (simp add: create_nodes_skip)
      with "1.IH"(2) lt True have
        "set (nodes k') = set (nodes k) \<union> {j. i + 1 \<le> j \<and> j < 6 \<and> len (bar pchar ! j) \<noteq> 0}
         \<and> drvdata k' = drvdata k"
        by simp
      moreover have "{j. i + 1 \<le> j \<and> j < 6 \<and> len (bar pchar ! j) \<noteq> 0}
                     = {j. i \<le> j \<and> j < 6 \<and> len (bar pchar ! j) \<noteq> 0}"
      proof -
        have "i + 1 \<le> j \<longleftrightarrow> i \<le> j \<and> j \<noteq> i" for j by arith
        with True show ?thesis by auto
      qed
      ultimately show ?thesis by simp
    next
      case False
      have ne: "\<not> IS_ERR (device_create_ret e i)"
      proof
        assume "IS_ERR (device_create_ret e i)"
        with lt False "1.prems" PTR_ERR_nonzero [of "device_create_ret e i"] show False
          by (simp add: create_nodes_fail)
      qed
      obtain d k1 where dc: "device_create e i k = (d, k1)" by (cases "device_create e i k")
      with ne have d: "d = device_create_ret e i" and k1: "k1 = k\<lparr>nodes := i # nodes k\<rparr>"
        by (simp_all add: device_create_def Let_def)
      from "1.prems" have "create_nodes e (i + 1) pchar k1 = (0, i', k')"
        by (simp add: create_nodes_next [OF lt False ne] k1)
      with "1.IH"(1) [OF lt _ dc [symmetric]] False ne d have
        "set (nodes k') = set (nodes k1) \<union> {j. i + 1 \<le> j \<and> j < 6 \<and> len (bar pchar ! j) \<noteq> 0}
         \<and> drvdata k' = drvdata k1"
        by simp
      then have r: "set (nodes k')
            = insert i (set (nodes k)) \<union> {j. i + 1 \<le> j \<and> j < 6 \<and> len (bar pchar ! j) \<noteq> 0}"
        and dd: "drvdata k' = drvdata k"
        by (simp_all add: k1)
      have e: "{j. i \<le> j \<and> j < 6 \<and> len (bar pchar ! j) \<noteq> 0}
                 = insert i {j. i + 1 \<le> j \<and> j < 6 \<and> len (bar pchar ! j) \<noteq> 0}"
      proof -
        have "i + 1 \<le> j \<longleftrightarrow> i \<le> j \<and> j \<noteq> i" for j by arith
        with False lt show ?thesis by auto
      qed
      show ?thesis unfolding e r using dd by auto
    qed
  qed
qed

lemma probe_success_published:
  assumes pr: "pci_probe e k = (0, k')" and n: "nodes k = []" and i: "i < 6"
  shows "has_length k' i \<longleftrightarrow> published k' i"
proof -
  let ?k3 = "k\<lparr>pchar_live := True, enabled := True, requested := True\<rparr>"
  obtain err i1 pchar1 k4 where mb: "map_bars e 0 (kmalloc_mem e) ?k3 = (err, i1, pchar1, k4)"
    by (cases "map_bars e 0 (kmalloc_mem e) ?k3")
  let ?pchar2 = "pchar1\<lparr>major := alloc_major e\<rparr>"
  let ?k6 = "k4\<lparr>chrdev := Some (alloc_major e), cdev_added := True\<rparr>"
  obtain err2 i2 k7 where cn: "create_nodes e 0 ?pchar2 ?k6 = (err2, i2, k7)"
    by (cases "create_nodes e 0 ?pchar2 ?k6")
  from pr mb cn have e2: "err2 = 0" and k': "k' = k7\<lparr>drvdata := Some ?pchar2\<rparr>"
    by (simp_all add: pci_probe_def Let_def ENOMEM_def split: if_splits)
  have "nodes k4 = nodes ?k3" using mb by (rule map_bars_nodes)
  then have n6: "nodes ?k6 = []" using n by simp
  from create_nodes_set [OF cn [unfolded e2]] n6
  have "set (nodes k7) = {j. j < 6 \<and> len (bar ?pchar2 ! j) \<noteq> 0}" by simp
  then show ?thesis using i by (simp add: k' has_length_def published_def)
qed

section \<open>Attach and detach on the scenarios\<close>

lemmas eval_defs = pci_probe_def scenario_def null_scenario_def unbound_def raw_pchar_def
  ioremap_def IS_ERR_def PTR_ERR_def device_create_def Let_def map_bars.simps
  create_nodes.simps

lemma probe_scenario: "pci_probe scenario unbound = (0, attached_example)"
  by (simp add: eval_defs attached_example_def)

lemma probe_null:
  "pci_probe null_scenario unbound =
     (0, attached_example
           \<lparr>iomaps := [0xFFFFC90000000000],
            drvdata := Some \<lparr>bar = [\<lparr>len = 4096, addr = 0xFFFFC90000000000\<rparr>,
                             \<lparr>len = 0, addr = 0\<rparr>, \<lparr>len = 0, addr = 0\<rparr>,
                             \<lparr>len = 256, addr = 0\<rparr>,
                             \<lparr>len = 0, addr = 0\<rparr>, \<lparr>len = 0, addr = 0\<rparr>],
                      major = 250\<rparr>\<rparr>)"
  by (simp add: eval_defs attached_example_def)

lemmas undo_defs = failure_device_create_def failure_cdev_add_def
  failure_alloc_chrdev_region_def failure_ioremap_def failure_pci_regions_def
  failure_pci_enable_def unmap_all_def destroy_all_def iounmap_def device_destroy_def
  cdev_del_def unregister_chrdev_region_def pci_release_selected_regions_def
  pci_disable_device_def kfree_def upt_rec

lemma unmap_below_numeral:
  "unmap_below (numeral n) pchar k =
     unmap_below (pred_numeral n) pchar
       (if len (bar pchar ! pred_numeral n) \<noteq> 0
        then iounmap (addr (bar pchar ! pred_numeral n)) k else k)"
  by (simp add: numeral_eq_Suc)

lemma destroy_below_numeral:
  "destroy_below (numeral n) pchar k =
     destroy_below (pred_numeral n) pchar
       (if len (bar pchar ! pred_numeral n) \<noteq> 0 then device_destroy (pred_numeral n) k else k)"
  by (simp add: numeral_eq_Suc)

lemma probe_errptr: "pci_probe errptr_scenario unbound = (- 12, unbound)"
  by (simp add: eval_defs undo_defs errptr_scenario_def unmap_below_numeral)

lemma probe_nodefail: "pci_probe nodefail_scenario unbound = (- 12, unbound)"
  by (simp add: eval_defs undo_defs nodefail_scenario_def destroy_below_numeral)

lemma remove_once:
  "pci_remove attached_example =
     Some (unbound\<lparr>drvdata := drvdata attached_example\<rparr>)"
  by (simp add: pci_remove_def attached_example_def unbound_def undo_defs Let_def)

lemma remove_second:
  "pci_remove (unbound\<lparr>drvdata := drvdata attached_example\<rparr>) =
     Some (unbound\<lparr>drvdata := drvdata attached_example,
                   misuse := [UseAfterFree, BadCdevDel, BadUnmap 0xFFFFC90000000000,
                              BadUnmap 0xFFFFC90000010000, DoubleFree]\<rparr>)"
  by (simp add: pci_remove_def attached_example_def unbound_def undo_defs Let_def)

lemma remove_twice:
  "Option.bind (pci_remove attached_example) pci_remove =
     Some (unbound\<lparr>drvdata := drvdata attached_example,
                   misuse := [UseAfterFree, BadCdevDel, BadUnmap 0xFFFFC90000000000,
                              BadUnmap 0xFFFFC90000010000, DoubleFree]\<rparr>)"
  by (simp add: remove_once remove_second)

text \<open>
  Claim C3 at the failing input. \<open>ioremap\<close> fails for BAR 3 and returns NULL. NULL is
  not an error pointer, so the mapping loop does not stop: attach returns 0, the mapping
  of BAR 0 stays live, the ranges stay requested, nodes are published for BAR 0 and for
  BAR 3. When the failure arrives as an error pointer (\<open>probe_errptr\<close>), and when
  \<open>device_create\<close> fails (\<open>probe_nodefail\<close>), everything is unwound.
\<close>

theorem probe_null_ioremap_not_unwound:
  "fst (pci_probe null_scenario unbound) = 0
   \<and> iomaps (snd (pci_probe null_scenario unbound)) = [0xFFFFC90000000000]
   \<and> requested (snd (pci_probe null_scenario unbound))
   \<and> nodes (snd (pci_probe null_scenario unbound)) = [3, 0]"
  by (simp add: probe_null attached_example_def)

text \<open>
  Claim C4 at the failing input. After that attach, which succeeded, region 3 has
  length 256 and a published node, and its base is NULL, no live mapping. Length and
  node agree after every successful attach (\<open>probe_success_published\<close>); it is the
  base that does not follow.
\<close>

theorem probe_null_ioremap_breaks_invariant:
  "fst (pci_probe null_scenario unbound) = 0
   \<and> has_length (snd (pci_probe null_scenario unbound)) 3
   \<and> published (snd (pci_probe null_scenario unbound)) 3
   \<and> \<not> base_mapped (snd (pci_probe null_scenario unbound)) 3"
  by (simp add: probe_null attached_example_def has_length_def published_def base_mapped_def)

section \<open>Detaching twice\<close>

lemma pci_remove_teardown:
  "drvdata k = Some pchar \<Longrightarrow>
   pci_remove k =
     Some (kfree (teardown pchar
       (if pchar_live k then k else k\<lparr>misuse := misuse k @ [UseAfterFree]\<rparr>)))"
  by (simp add: pci_remove_def teardown_def Let_def)

lemma fold_fixed: "(\<And>x. x \<in> set xs \<Longrightarrow> f x s = s) \<Longrightarrow> fold f xs s = s"
  by (induction xs) simp_all

lemma device_destroy_absent: "i \<notin> set (nodes s) \<Longrightarrow> device_destroy i s = s"
  by (simp add: device_destroy_def)

lemma destroy_all_absent:
  assumes "\<forall>i<6. len (bar pchar ! i) \<noteq> 0 \<longrightarrow> i \<notin> set (nodes s)"
  shows "destroy_all pchar s = s"
  unfolding destroy_all_def
  by (rule fold_fixed) (use assms in \<open>simp add: device_destroy_absent\<close>)

lemma destroy_fold_nodes:
  "(let k' = fold (\<lambda>i k. if P i then device_destroy i k else k) xs k in
    set (nodes k') = set (nodes k) - {i \<in> set xs. P i} \<and> k' = k\<lparr>nodes := nodes k'\<rparr>)"
proof (induction xs arbitrary: k)
  case Nil
  show ?case by simp
next
  case (Cons x xs)
  let ?k1 = "if P x then device_destroy x k else k"
  have s1: "set (nodes ?k1) = set (nodes k) - (if P x then {x} else {})"
    by (auto simp: device_destroy_def)
  have f1: "?k1 = k\<lparr>nodes := nodes ?k1\<rparr>" by (simp add: device_destroy_def)
  let ?k' = "fold (\<lambda>i k. if P i then device_destroy i k else k) xs ?k1"
  from Cons.IH [of ?k1] have
    s: "set (nodes ?k') = set (nodes ?k1) - {i \<in> set xs. P i}"
    and f: "?k' = ?k1\<lparr>nodes := nodes ?k'\<rparr>"
    by (simp_all only: Let_def)
  have s': "set (nodes ?k') = set (nodes k) - {i \<in> set (x # xs). P i}"
    unfolding s s1 by auto
  have f': "?k' = k\<lparr>nodes := nodes ?k'\<rparr>"
    by (subst f, subst f1) simp
  show ?case unfolding Let_def fold_simps using s' f' by blast
qed

lemma destroy_all_nodes:
  "set (nodes (destroy_all pchar k))
     = set (nodes k) - {i. i < 6 \<and> len (bar pchar ! i) \<noteq> 0}"
  "destroy_all pchar k = k\<lparr>nodes := nodes (destroy_all pchar k)\<rparr>"
  using destroy_fold_nodes [of "\<lambda>i. len (bar pchar ! i) \<noteq> 0" "[0..<6]" k]
  unfolding destroy_all_def Let_def by simp_all

lemma unmap_fold_absent:
  "\<forall>i\<in>set xs. P i \<longrightarrow> a i \<notin> set (iomaps k) \<Longrightarrow>
   fold (\<lambda>i k. if P i then iounmap (a i) k else k) xs k
     = k\<lparr>misuse := misuse k @ map (\<lambda>i. BadUnmap (a i)) (filter P xs)\<rparr>"
proof (induction xs arbitrary: k)
  case Nil
  show ?case by simp
next
  case (Cons x xs)
  show ?case
  proof (cases "P x")
    case False
    with Cons.prems Cons.IH [of k] show ?thesis by simp
  next
    case True
    with Cons.prems have st: "iounmap (a x) k = k\<lparr>misuse := misuse k @ [BadUnmap (a x)]\<rparr>"
      by (simp add: iounmap_def)
    have "\<forall>i\<in>set xs. P i \<longrightarrow> a i \<notin> set (iomaps (k\<lparr>misuse := misuse k @ [BadUnmap (a x)]\<rparr>))"
      using Cons.prems by simp
    from Cons.IH [OF this] True st show ?thesis by simp
  qed
qed

lemma unmap_all_absent:
  assumes "\<forall>i<6. len (bar pchar ! i) \<noteq> 0 \<longrightarrow> addr (bar pchar ! i) \<notin> set (iomaps k)"
  shows "unmap_all pchar k
     = k\<lparr>misuse := misuse k @ map (\<lambda>i. BadUnmap (addr (bar pchar ! i)))
                                 (filter (\<lambda>i. len (bar pchar ! i) \<noteq> 0) [0..<6])\<rparr>"
  unfolding unmap_all_def
  by (rule unmap_fold_absent) (use assms in simp)

lemma unmap_fold_live:
  "distinct (iomaps k) \<Longrightarrow>
   (let k' = fold (\<lambda>i k. if P i then iounmap (a i) k else k) xs k in
    distinct (iomaps k')
    \<and> set (iomaps k') = set (iomaps k) - a ` {i \<in> set xs. P i}
    \<and> k' = k\<lparr>iomaps := iomaps k', misuse := misuse k'\<rparr>)"
proof (induction xs arbitrary: k)
  case Nil
  then show ?case by simp
next
  case (Cons x xs)
  let ?k1 = "if P x then iounmap (a x) k else k"
  have d1: "distinct (iomaps ?k1)" using Cons.prems by (simp add: iounmap_def)
  have s1: "set (iomaps ?k1) = set (iomaps k) - (if P x then {a x} else {})"
    using Cons.prems by (auto simp: iounmap_def)
  have f1: "?k1 = k\<lparr>iomaps := iomaps ?k1, misuse := misuse ?k1\<rparr>"
    by (simp add: iounmap_def)
  let ?k' = "fold (\<lambda>i k. if P i then iounmap (a i) k else k) xs ?k1"
  from Cons.IH [OF d1] have
    d: "distinct (iomaps ?k')"
    and s: "set (iomaps ?k') = set (iomaps ?k1) - a ` {i \<in> set xs. P i}"
    and f: "?k' = ?k1\<lparr>iomaps := iomaps ?k', misuse := misuse ?k'\<rparr>"
    by (simp_all only: Let_def)
  have s': "set (iomaps ?k') = set (iomaps k) - a ` {i \<in> set (x # xs). P i}"
    unfolding s s1 by auto
  have f': "?k' = k\<lparr>iomaps := iomaps ?k', misuse := misuse ?k'\<rparr>"
    by (subst f, subst f1) simp
  show ?case unfolding Let_def fold_simps using d s' f' by blast
qed

lemma unmap_all_live:
  assumes "distinct (iomaps k)"
  shows "set (iomaps (unmap_all pchar k))
           = set (iomaps k)
             - (\<lambda>i. addr (bar pchar ! i)) ` {i. i < 6 \<and> len (bar pchar ! i) \<noteq> 0}"
    and "unmap_all pchar k
           = k\<lparr>iomaps := iomaps (unmap_all pchar k), misuse := misuse (unmap_all pchar k)\<rparr>"
  using unmap_fold_live [OF assms, of "\<lambda>i. len (bar pchar ! i) \<noteq> 0"
      "\<lambda>i. addr (bar pchar ! i)" "[0..<6]"]
  unfolding unmap_all_def Let_def by simp_all

lemma unregister_idle: "chrdev x = None \<Longrightarrow> unregister_chrdev_region x = x"
  by (cases x) (simp add: unregister_chrdev_region_def)

lemma release_idle: "\<not> requested x \<Longrightarrow> pci_release_selected_regions x = x"
  by (cases x) (simp add: pci_release_selected_regions_def)

lemma disable_idle: "\<not> enabled x \<Longrightarrow> pci_disable_device x = x"
  by (cases x) (simp add: pci_disable_device_def)

lemma pci_remove_released:
  assumes d: "drvdata s = Some pchar" and nl: "\<not> pchar_live s"
    and en: "\<not> enabled s" and rq: "\<not> requested s" and ch: "chrdev s = None"
    and cd: "\<not> cdev_added s"
    and nd: "\<forall>i<6. len (bar pchar ! i) \<noteq> 0 \<longrightarrow> i \<notin> set (nodes s)"
    and io: "\<forall>i<6. len (bar pchar ! i) \<noteq> 0 \<longrightarrow> addr (bar pchar ! i) \<notin> set (iomaps s)"
  shows "pci_remove s
           = Some (s\<lparr>misuse := misuse s @ [UseAfterFree, BadCdevDel]
                         @ map (\<lambda>i. BadUnmap (addr (bar pchar ! i)))
                             (filter (\<lambda>i. len (bar pchar ! i) \<noteq> 0) [0..<6])
                         @ [DoubleFree]\<rparr>)"
proof -
  let ?s0 = "s\<lparr>misuse := misuse s @ [UseAfterFree]\<rparr>"
  let ?s1 = "s\<lparr>misuse := misuse s @ [UseAfterFree, BadCdevDel]\<rparr>"
  let ?bad = "map (\<lambda>i. BadUnmap (addr (bar pchar ! i)))
                (filter (\<lambda>i. len (bar pchar ! i) \<noteq> 0) [0..<6])"
  let ?s2 = "s\<lparr>misuse := misuse s @ [UseAfterFree, BadCdevDel] @ ?bad\<rparr>"
  have a: "destroy_all pchar ?s0 = ?s0" using nd by (intro destroy_all_absent) simp
  have b: "cdev_del ?s0 = ?s1" using cd by (simp add: cdev_del_def)
  have c: "unregister_chrdev_region ?s1 = ?s1" using ch by (intro unregister_idle) simp
  have "unmap_all pchar ?s1 = ?s1\<lparr>misuse := misuse ?s1 @ ?bad\<rparr>"
    using io by (intro unmap_all_absent) simp
  then have u: "unmap_all pchar ?s1 = ?s2" by simp
  have e: "pci_release_selected_regions ?s2 = ?s2" using rq by (intro release_idle) simp
  have f: "pci_disable_device ?s2 = ?s2" using en by (intro disable_idle) simp
  have t: "teardown pchar ?s0 = ?s2" unfolding teardown_def a b c u e f ..
  have "kfree ?s2 = ?s2\<lparr>misuse := misuse ?s2 @ [DoubleFree]\<rparr>" using nl by (simp add: kfree_def)
  then show ?thesis using nl by (simp add: pci_remove_teardown [OF d] t)
qed

text \<open>
  Claim C9, as the code has it. \<open>pci_remove\<close> keeps no trace of having run: it leaves the
  driver-data pointer and the record as they are. On an attached device, whose live
  mappings have distinct addresses, the first detach returns with the nodes of the
  non-empty regions destroyed, the \<open>cdev\<close> deleted, the numbers unregistered, the ranges
  of the non-empty regions unmapped and released, the device disabled and the record
  freed. A second detach then does nothing else than misuse the kernel: it reads the
  freed record, deletes the \<open>cdev\<close> again, unmaps again every range whose recorded length
  is non-zero, none of them mapped any more, and frees the record again. With the pointer
  cleared in between it dereferences NULL. Safety rests on the bus core, which calls
  detach once for each successful attach.
\<close>

theorem pci_remove_not_idempotent:
  assumes d: "drvdata k = Some pchar" and l: "pchar_live k" and dist: "distinct (iomaps k)"
  shows "\<exists>k1. pci_remove k = Some k1
          \<and> \<not> pchar_live k1 \<and> \<not> enabled k1 \<and> \<not> requested k1 \<and> chrdev k1 = None
          \<and> \<not> cdev_added k1 \<and> drvdata k1 = Some pchar
          \<and> set (nodes k1) = set (nodes k) - {i. i < 6 \<and> len (bar pchar ! i) \<noteq> 0}
          \<and> set (iomaps k1)
              = set (iomaps k)
                - (\<lambda>i. addr (bar pchar ! i)) ` {i. i < 6 \<and> len (bar pchar ! i) \<noteq> 0}
          \<and> pci_remove k1
              = Some (k1\<lparr>misuse := misuse k1 @ [UseAfterFree, BadCdevDel]
                              @ map (\<lambda>i. BadUnmap (addr (bar pchar ! i)))
                                  (filter (\<lambda>i. len (bar pchar ! i) \<noteq> 0) [0..<6])
                              @ [DoubleFree]\<rparr>)
          \<and> pci_remove (k1\<lparr>drvdata := None\<rparr>) = None"
proof -
  let ?a = "destroy_all pchar k"
  let ?c = "unregister_chrdev_region (cdev_del ?a)"
  let ?d = "unmap_all pchar ?c"
  let ?k1 = "kfree (pci_disable_device (pci_release_selected_regions ?d))"
  have r1: "pci_remove k = Some ?k1"
    using l by (simp add: pci_remove_teardown [OF d] teardown_def)
  note an = destroy_all_nodes [of pchar k]
  have a_f: "iomaps ?a = iomaps k" "pchar_live ?a = pchar_live k" "drvdata ?a = drvdata k"
    using arg_cong [OF an(2), of iomaps] arg_cong [OF an(2), of pchar_live]
      arg_cong [OF an(2), of drvdata] by simp_all
  have c_f: "iomaps ?c = iomaps k" "pchar_live ?c" "drvdata ?c = Some pchar"
    "nodes ?c = nodes ?a" "chrdev ?c = None" "\<not> cdev_added ?c"
    using a_f l d by (simp_all add: unregister_chrdev_region_def cdev_del_def)
  have cd: "distinct (iomaps ?c)" using dist c_f(1) by simp
  note dn = unmap_all_live [OF cd, of pchar]
  have d_f: "pchar_live ?d" "drvdata ?d = Some pchar" "nodes ?d = nodes ?a"
    "chrdev ?d = None" "\<not> cdev_added ?d"
    using arg_cong [OF dn(2), of pchar_live] arg_cong [OF dn(2), of drvdata]
      arg_cong [OF dn(2), of nodes] arg_cong [OF dn(2), of chrdev]
      arg_cong [OF dn(2), of cdev_added] c_f
    by simp_all
  have d_io: "set (iomaps ?d)
      = set (iomaps k) - (\<lambda>i. addr (bar pchar ! i)) ` {i. i < 6 \<and> len (bar pchar ! i) \<noteq> 0}"
    using dn(1) c_f(1) by simp
  have k_f: "\<not> pchar_live ?k1" "\<not> enabled ?k1" "\<not> requested ?k1" "chrdev ?k1 = None"
    "\<not> cdev_added ?k1" "drvdata ?k1 = Some pchar" "nodes ?k1 = nodes ?a"
    "iomaps ?k1 = iomaps ?d"
    using d_f
    by (simp_all add: kfree_def pci_disable_device_def pci_release_selected_regions_def)
  have k_nd: "set (nodes ?k1) = set (nodes k) - {i. i < 6 \<and> len (bar pchar ! i) \<noteq> 0}"
    using k_f(7) an(1) by simp
  have k_io: "set (iomaps ?k1)
      = set (iomaps k) - (\<lambda>i. addr (bar pchar ! i)) ` {i. i < 6 \<and> len (bar pchar ! i) \<noteq> 0}"
    using k_f(8) d_io by simp
  have nd: "\<forall>i<6. len (bar pchar ! i) \<noteq> 0 \<longrightarrow> i \<notin> set (nodes ?k1)"
    unfolding k_nd by simp
  have io: "\<forall>i<6. len (bar pchar ! i) \<noteq> 0 \<longrightarrow> addr (bar pchar ! i) \<notin> set (iomaps ?k1)"
    unfolding k_io by simp
  note r2 = pci_remove_released [OF k_f(6) k_f(1) k_f(2) k_f(3) k_f(4) k_f(5) nd io]
  have r3: "pci_remove (?k1\<lparr>drvdata := None\<rparr>) = None" by (simp add: pci_remove_def)
  show ?thesis
    by (rule exI [of _ ?k1]) (intro conjI r1 k_f(1-6) k_nd k_io r2 r3)
qed

lemma upt_six: "[0..<6] = [0, 1, 2, 3, 4, 5]"
  by code_simp

lemma below_six_filter: "{i. i < 6 \<and> Q i} = set (filter Q [0..<6])"
  by auto

theorem pci_remove_not_idempotent_witness:
  "\<exists>k1. pci_remove attached_example = Some k1
        \<and> \<not> pchar_live k1 \<and> set (iomaps k1) = {} \<and> set (nodes k1) = {}
        \<and> pci_remove k1
            = Some (k1\<lparr>misuse := misuse k1
                          @ [UseAfterFree, BadCdevDel, BadUnmap 0xFFFFC90000000000,
                             BadUnmap 0xFFFFC90000010000, DoubleFree]\<rparr>)"
proof -
  let ?p = "\<lparr>bar = [\<lparr>len = 4096, addr = 0xFFFFC90000000000\<rparr>,
                    \<lparr>len = 0, addr = 0\<rparr>, \<lparr>len = 0, addr = 0\<rparr>,
                    \<lparr>len = 256, addr = 0xFFFFC90000010000\<rparr>,
                    \<lparr>len = 0, addr = 0\<rparr>, \<lparr>len = 0, addr = 0\<rparr>],
             major = 250\<rparr> :: pci_char"
  have d: "drvdata attached_example = Some ?p" by (simp add: attached_example_def)
  have l: "pchar_live attached_example" by (simp add: attached_example_def)
  have dist: "distinct (iomaps attached_example)" by (simp add: attached_example_def)
  have nz: "{i. i < 6 \<and> len (bar ?p ! i) \<noteq> 0} = {0, 3}"
    unfolding below_six_filter upt_six by simp
  have bad: "map (\<lambda>i. BadUnmap (addr (bar ?p ! i))) (filter (\<lambda>i. len (bar ?p ! i) \<noteq> 0) [0..<6])
               = [BadUnmap 0xFFFFC90000000000, BadUnmap 0xFFFFC90000010000]"
    unfolding upt_six by simp
  from pci_remove_not_idempotent [OF d l dist] obtain k1 where
    r1: "pci_remove attached_example = Some k1" and nl: "\<not> pchar_live k1"
    and nd: "set (nodes k1) = set (nodes attached_example) - {i. i < 6 \<and> len (bar ?p ! i) \<noteq> 0}"
    and io: "set (iomaps k1) = set (iomaps attached_example)
               - (\<lambda>i. addr (bar ?p ! i)) ` {i. i < 6 \<and> len (bar ?p ! i) \<noteq> 0}"
    and r2: "pci_remove k1
              = Some (k1\<lparr>misuse := misuse k1 @ [UseAfterFree, BadCdevDel]
                              @ map (\<lambda>i. BadUnmap (addr (bar ?p ! i)))
                                  (filter (\<lambda>i. len (bar ?p ! i) \<noteq> 0) [0..<6])
                              @ [DoubleFree]\<rparr>)"
    by (elim exE conjE)
  have nd': "set (nodes k1) = {}" unfolding nd nz by (simp add: attached_example_def)
  have io': "set (iomaps k1) = {}" unfolding io nz by (simp add: attached_example_def)
  have r2': "pci_remove k1
            = Some (k1\<lparr>misuse := misuse k1
                          @ [UseAfterFree, BadCdevDel, BadUnmap 0xFFFFC90000000000,
                             BadUnmap 0xFFFFC90000010000, DoubleFree]\<rparr>)"
    unfolding r2 bad by simp
  show ?thesis by (rule exI [of _ k1]) (intro conjI r1 nl io' nd' r2')
qed

text \<open>
  On the attached scenario the first detach releases everything without misuse; the
  second unmaps both released ranges again and frees the record again.
\<close>

theorem pci_remove_twice_counterexample:
  "map_option misuse (pci_remove attached_example) = Some []
   \<and> map_option iomaps (pci_remove attached_example) = Some []
   \<and> map_option misuse (Option.bind (pci_remove attached_example) pci_remove)
       = Some [UseAfterFree, BadCdevDel, BadUnmap 0xFFFFC90000000000,
               BadUnmap 0xFFFFC90000010000, DoubleFree]"
  by (simp only: remove_twice) (simp add: remove_once unbound_def)

end
